theory Spec2Isabelle
  imports Main "HOL-Library.AList"
begin

section \<open>Python strings\<close>

text \<open>
  The parser works on Python \<^verbatim>\<open>str\<close> values. A string is modelled as a list of
  characters, and each \<^typ>\<open>char\<close> stands for the Unicode code point of the same
  number, so the model covers every text whose code points are below 256 (ASCII and
  Latin-1). The character classes below are the ones CPython uses for \<^verbatim>\<open>str.strip\<close>,
  \<^verbatim>\<open>str.splitlines\<close>, \<^verbatim>\<open>str.lower\<close> and for \<^verbatim>\<open>\s\<close> and \<^verbatim>\<open>\w\<close> in a
  \<^verbatim>\<open>str\<close> pattern, restricted to that range.
\<close>

definition code_point :: "char \<Rightarrow> nat" where
  "code_point c = of_char c"

text \<open>\<^verbatim>\<open>str.isspace\<close>: TAB, LF, VT, FF, CR, FS, GS, RS, US, space, NEL, NBSP.\<close>

definition is_space :: "char \<Rightarrow> bool" where
  "is_space c =
     (let n = code_point c
      in (9 \<le> n \<and> n \<le> 13) \<or> (28 \<le> n \<and> n \<le> 32) \<or> n = 133 \<or> n = 160)"

text \<open>The line boundaries of \<^verbatim>\<open>str.splitlines\<close>: LF, VT, FF, CR, FS, GS, RS, NEL.\<close>

definition is_linebreak :: "char \<Rightarrow> bool" where
  "is_linebreak c =
     (let n = code_point c
      in (10 \<le> n \<and> n \<le> 13) \<or> (28 \<le> n \<and> n \<le> 30) \<or> n = 133)"

text \<open>
  \<^verbatim>\<open>\w\<close> in a \<^verbatim>\<open>str\<close> pattern: alphanumeric (alphabetic, decimal, digit or numeric)
  or the underscore.
\<close>

definition is_word :: "char \<Rightarrow> bool" where
  "is_word c =
     (let n = code_point c
      in (48 \<le> n \<and> n \<le> 57) \<or> (65 \<le> n \<and> n \<le> 90) \<or> n = 95 \<or> (97 \<le> n \<and> n \<le> 122)
         \<or> n = 170 \<or> n = 178 \<or> n = 179 \<or> n = 181 \<or> n = 185 \<or> n = 186
         \<or> (188 \<le> n \<and> n \<le> 190)
         \<or> (192 \<le> n \<and> n \<le> 214) \<or> (216 \<le> n \<and> n \<le> 246) \<or> (248 \<le> n \<and> n \<le> 255))"

text \<open>The character class \<^verbatim>\<open>[\w\.]\<close> of the key pattern.\<close>

definition is_key_char :: "char \<Rightarrow> bool" where
  "is_key_char c = (is_word c \<or> c = CHR ''.'')"

text \<open>\<^verbatim>\<open>.\<close> in a pattern compiled without DOTALL: any character but LF.\<close>

definition is_dot :: "char \<Rightarrow> bool" where
  "is_dot c = (c \<noteq> CHR 0x0A)"

definition lower_char :: "char \<Rightarrow> char" where
  "lower_char c =
     (let n = code_point c
      in if (65 \<le> n \<and> n \<le> 90) \<or> (192 \<le> n \<and> n \<le> 222 \<and> n \<noteq> 215)
         then char_of (n + 32) else c)"

definition lower :: "string \<Rightarrow> string" where
  "lower s = map lower_char s"

text \<open>\<^verbatim>\<open>s.strip()\<close>\<close>

definition strip :: "string \<Rightarrow> string" where
  "strip s = rev (dropWhile is_space (rev (dropWhile is_space s)))"

text \<open>
  \<^verbatim>\<open>s.splitlines()\<close>: the text is cut at every line boundary, CR LF counts as one
  boundary, and a boundary at the very end opens no further line. The first argument is
  the line being read.
\<close>

fun splitlines_from :: "string \<Rightarrow> string \<Rightarrow> string list" where
  "splitlines_from cur [] = (if cur = [] then [] else [cur])"
| "splitlines_from cur [c] =
     (if is_linebreak c then [cur] else [cur @ [c]])"
| "splitlines_from cur (c # d # cs) =
     (if c = CHR 0x0D \<and> d = CHR 0x0A then cur # splitlines_from [] cs
      else if is_linebreak c then cur # splitlines_from [] (d # cs)
      else splitlines_from (cur @ [c]) (d # cs))"

definition splitlines :: "string \<Rightarrow> string list" where
  "splitlines s = splitlines_from [] s"

text \<open>\<^verbatim>\<open>s.startswith(p)\<close> and \<^verbatim>\<open>s.startswith((p1, ..., pn))\<close>\<close>

definition startswith :: "string \<Rightarrow> string \<Rightarrow> bool" where
  "startswith s p = (take (length p) s = p)"

definition startswith_any :: "string \<Rightarrow> string list \<Rightarrow> bool" where
  "startswith_any s ps = list_ex (startswith s) ps"

text \<open>\<^verbatim>\<open>" ".join(xs)\<close>\<close>

fun join_space :: "string list \<Rightarrow> string" where
  "join_space [] = []"
| "join_space [x] = x"
| "join_space (x # y # ys) = x @ '' '' @ join_space (y # ys)"

section \<open>The key pattern\<close>

text \<open>
  \<^verbatim>\<open>key_pattern = re.compile(r"^\s*([\w\.]+)\s*(?:\(.*\))?:\s*(.*)")\<close>, used with
  \<^verbatim>\<open>key_pattern.match(line)\<close>. The matcher is a backtracking one: a greedy repetition
  first takes as many characters as it can and gives them back one at a time while the
  rest of the pattern fails. \<open>try_down f lo d\<close> tries the counts \<open>lo + d\<close>, ...,
  \<open>lo\<close> in that order and keeps the first success.
\<close>

fun try_down :: "(nat \<Rightarrow> 'a option) \<Rightarrow> nat \<Rightarrow> nat \<Rightarrow> 'a option" where
  "try_down f lo 0 = f lo"
| "try_down f lo (Suc d) =
     (case f (lo + Suc d) of Some r \<Rightarrow> Some r | None \<Rightarrow> try_down f lo d)"

text \<open>
  A greedy repetition of the character class \<open>p\<close>, at least \<open>lo\<close> times, followed
  by the continuation \<open>k\<close>, which receives the number of characters taken.
\<close>

definition greedy :: "(char \<Rightarrow> bool) \<Rightarrow> nat \<Rightarrow> string \<Rightarrow> (nat \<Rightarrow> 'a option) \<Rightarrow> 'a option" where
  "greedy p lo s k =
     (let m = length (takeWhile p s)
      in if m < lo then None else try_down k lo (m - lo))"

text \<open>\<^verbatim>\<open>\s*(.*)\<close> at the end of the pattern: the value is group 2.\<close>

definition match_desc :: "string \<Rightarrow> string option" where
  "match_desc s =
     greedy is_space 0 s (\<lambda>i.
       greedy is_dot 0 (drop i s) (\<lambda>j. Some (take j (drop i s))))"

text \<open>\<^verbatim>\<open>:\s*(.*)\<close>\<close>

definition match_colon :: "string \<Rightarrow> string option" where
  "match_colon s =
     (case s of [] \<Rightarrow> None
      | c # rest \<Rightarrow> if c = CHR '':'' then match_desc rest else None)"

text \<open>\<^verbatim>\<open>\(.*\)\<close> followed by the rest of the pattern.\<close>

definition match_annotation :: "string \<Rightarrow> string option" where
  "match_annotation s =
     (case s of [] \<Rightarrow> None
      | c # rest \<Rightarrow>
          if c = CHR ''(''
          then greedy is_dot 0 rest (\<lambda>i.
                 case drop i rest of [] \<Rightarrow> None
                 | e # rest' \<Rightarrow> if e = CHR '')'' then match_colon rest' else None)
          else None)"

text \<open>\<^verbatim>\<open>(?:\(.*\))?:\s*(.*)\<close>: the optional group is tried first, then skipped.\<close>

definition match_after_key :: "string \<Rightarrow> string option" where
  "match_after_key s =
     (case match_annotation s of Some d \<Rightarrow> Some d | None \<Rightarrow> match_colon s)"

text \<open>
  The whole pattern. The result is \<open>None\<close> when \<^verbatim>\<open>match\<close> returns \<^verbatim>\<open>None\<close>, and
  the pair of \<^verbatim>\<open>match.group(1)\<close> and \<^verbatim>\<open>match.group(2)\<close> otherwise.
\<close>

definition key_pattern :: "string \<Rightarrow> (string \<times> string) option" where
  "key_pattern line =
     greedy is_space 0 line (\<lambda>i.
       greedy is_key_char 1 (drop i line) (\<lambda>j.
         greedy is_space 0 (drop (i + j) line) (\<lambda>k.
           map_option (Pair (take j (drop i line)))
             (match_after_key (drop (i + j + k) line)))))"

section \<open>The parser\<close>

datatype section_type = Args | Returns | Raises | Other

record parsed_doc =
  summary :: string
  args :: "(string \<times> string) list"
  returns :: string
  raises :: "(string \<times> string) list"

text \<open>
  The local variables of \<^verbatim>\<open>parse_docstring\<close>: the four fields of the result and the
  three variables of the scanner. A dictionary is an association list in insertion
  order; \<^verbatim>\<open>d[k] = v\<close> is \<^const>\<open>AList.update\<close>, which replaces the value of a key
  that is present where it stands and appends a new key at the end.
\<close>

record pstate = parsed_doc +
  current_section :: "section_type option"
  current_key :: "string option"
  current_desc_lines :: "string list"

datatype py_error = IndexError

text \<open>Truth value of \<^verbatim>\<open>current_key\<close>: neither \<^verbatim>\<open>None\<close> nor the empty string.\<close>

definition truthy :: "string option \<Rightarrow> bool" where
  "truthy k = (case k of None \<Rightarrow> False | Some s \<Rightarrow> s \<noteq> [])"

text \<open>
  The tuples of the section detection: \<^verbatim>\<open>section_line in (...)\<close> for the first two,
  \<^verbatim>\<open>section_line.startswith((...))\<close> for the last two.
\<close>

definition args_headers :: "string list" where
  "args_headers = [''args:'', ''arguments:'', ''parameters:'']"

definition returns_headers :: "string list" where
  "returns_headers = [''returns:'', ''yields:'']"

definition raises_prefixes :: "string list" where
  "raises_prefixes = [''raises '', ''raises:'', ''errors:'', ''exceptions:'']"

definition other_prefixes :: "string list" where
  "other_prefixes = [''attributes:'', ''see also:'', ''example:'', ''examples:'', ''notes:'']"

text \<open>Section detection on the lowercased stripped line (\<^verbatim>\<open>new_section_type\<close>).\<close>

definition detect_section :: "string \<Rightarrow> section_type option" where
  "detect_section section_line =
     (if section_line \<in> set args_headers then Some Args
      else if section_line \<in> set returns_headers then Some Returns
      else if startswith_any section_line raises_prefixes then Some Raises
      else if startswith_any section_line other_prefixes then Some Other
      else None)"

definition header_of :: "string \<Rightarrow> section_type option" where
  "header_of line = detect_section (lower (strip line))"

text \<open>The description of the pending item: \<^verbatim>\<open>" ".join(current_desc_lines).strip()\<close>\<close>

definition pending_desc :: "'a pstate_scheme \<Rightarrow> string" where
  "pending_desc st = strip (join_space (current_desc_lines st))"

text \<open>The block under \<^verbatim>\<open>if finalize_previous:\<close>, up to the reset of the state.\<close>

definition finalize :: "section_type option \<Rightarrow> pstate \<Rightarrow> pstate" where
  "finalize new_section_type st =
     (let st1 =
        (if current_section st = Some Args \<and> truthy (current_key st)
           then st\<lparr>args := AList.update (the (current_key st)) (pending_desc st) (args st)\<rparr>
         else if current_section st = Some Raises \<and> truthy (current_key st)
           then st\<lparr>raises := AList.update (the (current_key st)) (pending_desc st) (raises st)\<rparr>
         else if current_section st = Some Returns
           then st\<lparr>returns := pending_desc st\<rparr>
         else st)
      in st1\<lparr>current_key := None, current_desc_lines := [],
             current_section := new_section_type\<rparr>)"

text \<open>The block under \<^verbatim>\<open># --- Process Line Content ---\<close>\<close>

definition process_content :: "string \<Rightarrow> pstate \<Rightarrow> pstate" where
  "process_content line st =
     (if current_section st = Some Args \<or> current_section st = Some Raises then
        (case key_pattern line of
           Some (k, d) \<Rightarrow>
             (let st1 =
                (if truthy (current_key st) then
                   (if current_section st = Some Args
                      then st\<lparr>args := AList.update (the (current_key st)) (pending_desc st) (args st)\<rparr>
                    else if current_section st = Some Raises
                      then st\<lparr>raises := AList.update (the (current_key st)) (pending_desc st) (raises st)\<rparr>
                    else st)
                 else st)
              in st1\<lparr>current_key := Some k, current_desc_lines := [strip d]\<rparr>)
         | None \<Rightarrow>
             if truthy (current_key st) \<and> startswith line '' ''
             then st\<lparr>current_desc_lines := current_desc_lines st @ [strip line]\<rparr>
             else st)
      else if current_section st = Some Returns then
        (if current_desc_lines st = [] \<or> startswith line '' ''
         then st\<lparr>current_desc_lines := current_desc_lines st @ [strip line]\<rparr>
         else st)
      else st)"

text \<open>The body of \<^verbatim>\<open>for line in lines[1:]\<close>\<close>

definition process_line :: "pstate \<Rightarrow> string \<Rightarrow> pstate" where
  "process_line st line =
     (if strip line = [] then st
      else
        let new_section_type = header_of line;
            is_new_section_header = (new_section_type \<noteq> None);
            finalize_previous =
              (is_new_section_header
               \<or> ((current_section st = Some Args \<or> current_section st = Some Raises)
                   \<and> truthy (current_key st) \<and> \<not> startswith line '' '')
               \<or> (current_section st = Some Returns \<and> current_desc_lines st \<noteq> []
                   \<and> \<not> startswith line '' ''))
        in if finalize_previous then
             (if is_new_section_header then finalize new_section_type st
              else process_content line (finalize new_section_type st))
           else process_content line st)"

text \<open>The block under \<^verbatim>\<open># --- Final capture after loop ---\<close> and the returned dictionary.\<close>

definition final_capture :: "pstate \<Rightarrow> parsed_doc" where
  "final_capture st =
     (let st1 =
        (if truthy (current_key st) then
           (if current_section st = Some Args
              then st\<lparr>args := AList.update (the (current_key st)) (pending_desc st) (args st)\<rparr>
            else if current_section st = Some Raises
              then st\<lparr>raises := AList.update (the (current_key st)) (pending_desc st) (raises st)\<rparr>
            else st)
         else if current_section st = Some Returns \<and> returns st = []
           then st\<lparr>returns := pending_desc st\<rparr>
         else st)
      in \<lparr>summary = summary st1, args = args st1, returns = returns st1, raises = raises st1\<rparr>)"

definition initial_state :: "string \<Rightarrow> pstate" where
  "initial_state first_line =
     \<lparr>summary = strip first_line, args = [], returns = [], raises = [],
      current_section = None, current_key = None, current_desc_lines = []\<rparr>"

definition empty_doc :: parsed_doc where
  "empty_doc = \<lparr>summary = [], args = [], returns = [], raises = []\<rparr>"

text \<open>
  The statements after the two early returns: \<^verbatim>\<open>lines[0]\<close> raises \<^verbatim>\<open>IndexError\<close> on
  an empty list; the slice \<^verbatim>\<open>lines[1:]\<close> raises nothing.
\<close>

definition parse_lines :: "string list \<Rightarrow> py_error + parsed_doc" where
  "parse_lines lines =
     (case lines of
        [] \<Rightarrow> Inl IndexError
      | first_line # rest \<Rightarrow> Inr (final_capture (foldl process_line (initial_state first_line) rest)))"

definition parse_docstring :: "string option \<Rightarrow> py_error + parsed_doc" where
  "parse_docstring docstring =
     (case docstring of
        None \<Rightarrow> Inr empty_doc
      | Some text \<Rightarrow>
          if text = [] then Inr empty_doc
          else let lines = splitlines (strip text)
               in if lines = [] then Inr empty_doc else parse_lines lines)"

section \<open>Notions used in the statements\<close>

text \<open>
  The dictionary a section writes to: \<^verbatim>\<open>args\<close> for the Args section,
  \<^verbatim>\<open>raises\<close> for the Raises section.
\<close>

definition entries :: "section_type \<Rightarrow> 'a parsed_doc_scheme \<Rightarrow> (string \<times> string) list" where
  "entries sec r = (case sec of Args \<Rightarrow> args r | Raises \<Rightarrow> raises r | _ \<Rightarrow> [])"

text \<open>
  The keys a state has committed to the dictionary of a section, together with the key
  of the pending entry of that section.
\<close>

definition known_keys :: "section_type \<Rightarrow> pstate \<Rightarrow> string set" where
  "known_keys sec st =
     fst ` set (entries sec st) \<union>
     (if current_section st = Some sec \<and> truthy (current_key st)
      then {the (current_key st)} else {})"

text \<open>
  A continuation line of an entry of Args or Raises: not blank, starting with a space,
  neither a header nor a match of the key pattern.
\<close>

definition is_continuation :: "string \<Rightarrow> bool" where
  "is_continuation line =
     (strip line \<noteq> [] \<and> startswith line '' '' \<and> header_of line = None
      \<and> key_pattern line = None)"

text \<open>
  The line is taken as a key-line that opens an entry for the key \<open>k\<close> in the section
  \<open>sec\<close>: it is no header, the scanner is in that section, the line starts with a
  space unless no key is pending, and group 1 of the key pattern is \<open>k\<close>.
\<close>

definition opens_key :: "section_type \<Rightarrow> string \<Rightarrow> pstate \<Rightarrow> string \<Rightarrow> bool" where
  "opens_key sec k st line =
     (header_of line = None \<and> current_section st = Some sec
      \<and> (startswith line '' '' \<or> \<not> truthy (current_key st))
      \<and> map_option fst (key_pattern line) = Some k)"

text \<open>None of the lines, scanned from the state \<open>st\<close>, opens an entry for \<open>k\<close> in \<open>sec\<close>.\<close>

fun no_later_key :: "section_type \<Rightarrow> string \<Rightarrow> pstate \<Rightarrow> string list \<Rightarrow> bool" where
  "no_later_key sec k st [] = True"
| "no_later_key sec k st (l # ls) =
     (\<not> opens_key sec k st l \<and> no_later_key sec k (process_line st l) ls)"

text \<open>
  The entry of \<open>k\<close> in the dictionary of \<open>sec\<close> is \<open>v\<close>, and no entry for \<open>k\<close> is
  pending in that section.
\<close>

definition entry_settled :: "section_type \<Rightarrow> string \<Rightarrow> string \<Rightarrow> pstate \<Rightarrow> bool" where
  "entry_settled sec k v st =
     (map_of (entries sec st) k = Some v
      \<and> \<not> (current_section st = Some sec \<and> current_key st = Some k))"

text \<open>No key occurs twice in \<^verbatim>\<open>args\<close> or in \<^verbatim>\<open>raises\<close>.\<close>

definition keys_distinct :: "'a parsed_doc_scheme \<Rightarrow> bool" where
  "keys_distinct r = (distinct (map fst (args r)) \<and> distinct (map fst (raises r)))"

section \<open>Characters, strings and the key pattern\<close>

lemma is_linebreak_imp_space: "is_linebreak c \<Longrightarrow> is_space c"
  by (auto simp: is_linebreak_def is_space_def Let_def)

lemma space_not_key_char: "is_space c \<Longrightarrow> \<not> is_key_char c"
  by (auto simp: is_space_def is_key_char_def is_word_def code_point_def Let_def)

lemma key_char_not_punct: "is_key_char c \<Longrightarrow> c \<noteq> CHR '':'' \<and> c \<noteq> CHR ''('' \<and> \<not> is_space c"
  by (auto simp: is_space_def is_key_char_def is_word_def code_point_def Let_def)

lemma space_not_punct: "is_space c \<Longrightarrow> c \<noteq> CHR '':'' \<and> c \<noteq> CHR ''(''"
  by (auto simp: is_space_def code_point_def Let_def)

lemma is_space_blank [simp]: "is_space CHR '' ''"
  by (simp add: is_space_def code_point_def)

lemma try_down_first: "f (lo + d) = Some r \<Longrightarrow> try_down f lo d = Some r"
  by (cases d) simp_all

lemma try_down_only:
  "(\<And>n. lo \<le> n \<Longrightarrow> n < lo + d \<Longrightarrow> f n = None) \<Longrightarrow> try_down f lo d = f (lo + d)"
proof (induction d)
  case 0
  then show ?case by simp
next
  case (Suc d)
  have "try_down f lo d = f (lo + d)"
    by (rule Suc.IH) (simp add: Suc.prems)
  moreover have "f (lo + d) = None"
    by (rule Suc.prems) simp_all
  ultimately show ?case
    by (simp split: option.splits)
qed

lemma drop_in_takeWhile:
  assumes "n < length (takeWhile p s)"
  shows "\<exists>c rest. drop n s = c # rest \<and> p c"
proof -
  have s: "s = takeWhile p s @ dropWhile p s" by simp
  have "drop n s = drop n (takeWhile p s) @ dropWhile p s"
    using assms by (subst s) (simp del: takeWhile_dropWhile_id)
  moreover have "drop n (takeWhile p s) = (takeWhile p s ! n) # drop (Suc n) (takeWhile p s)"
    using assms by (simp add: Cons_nth_drop_Suc)
  moreover have "p (takeWhile p s ! n)"
    using assms by (meson nth_mem set_takeWhileD)
  ultimately show ?thesis by simp
qed

lemma greedy_only:
  assumes "\<And>n c rest. lo \<le> n \<Longrightarrow> drop n s = c # rest \<Longrightarrow> p c \<Longrightarrow> k n = None"
  shows "greedy p lo s k =
         (if length (takeWhile p s) < lo then None else k (length (takeWhile p s)))"
proof (cases "length (takeWhile p s) < lo")
  case True
  then show ?thesis by (simp add: greedy_def)
next
  case False
  have "try_down k lo (length (takeWhile p s) - lo) = k (lo + (length (takeWhile p s) - lo))"
  proof (rule try_down_only)
    fix n assume "lo \<le> n" "n < lo + (length (takeWhile p s) - lo)"
    then have "n < length (takeWhile p s)" using False by simp
    then obtain c rest where "drop n s = c # rest" "p c"
      using drop_in_takeWhile by blast
    then show "k n = None" using assms \<open>lo \<le> n\<close> by blast
  qed
  then show ?thesis using False by (simp add: greedy_def)
qed

lemma greedy_first:
  assumes "k (length (takeWhile p s)) = Some r" "lo \<le> length (takeWhile p s)"
  shows "greedy p lo s k = Some r"
  using assms by (simp add: greedy_def try_down_first)

lemma drop_takeWhile_length [simp]: "drop (length (takeWhile p s)) s = dropWhile p s"
  by (induction s) auto

lemma take_takeWhile_length [simp]: "take (length (takeWhile p s)) s = takeWhile p s"
  by (induction s) auto

lemma match_desc_eq: "match_desc s = Some (takeWhile is_dot (dropWhile is_space s))"
  unfolding match_desc_def
  by (rule greedy_first) (simp_all add: greedy_first)

lemma match_after_key_space: "is_space c \<Longrightarrow> match_after_key (c # rest) = None"
  using space_not_punct [of c]
  by (simp add: match_after_key_def match_annotation_def match_colon_def)

lemma match_after_key_key_char: "is_key_char c \<Longrightarrow> match_after_key (c # rest) = None"
  using key_char_not_punct [of c]
  by (simp add: match_after_key_def match_annotation_def match_colon_def)

lemma key_pattern_eq:
  "key_pattern line =
     (let s1 = dropWhile is_space line;
          key = takeWhile is_key_char s1;
          s3 = dropWhile is_space (dropWhile is_key_char s1)
      in if key = [] then None else map_option (Pair key) (match_after_key s3))"
proof -
  have inner: "greedy is_space 0 s (\<lambda>k. map_option (Pair key) (match_after_key (drop k s)))
      = map_option (Pair key) (match_after_key (dropWhile is_space s))" for s key
    by (subst greedy_only) (auto simp: match_after_key_space)
  have inner': "greedy is_space 0 (drop (i + j) line)
         (\<lambda>k. map_option (Pair key) (match_after_key (drop (i + j + k) line)))
      = map_option (Pair key) (match_after_key (dropWhile is_space (drop (i + j) line)))" for i j key
    using inner [of "drop (i + j) line" key] by (simp add: add.commute)
  have mid: "greedy is_key_char 1 s (\<lambda>j. map_option (Pair (take j s))
               (match_after_key (dropWhile is_space (drop j s))))
      = (if takeWhile is_key_char s = [] then None
         else map_option (Pair (takeWhile is_key_char s))
                (match_after_key (dropWhile is_space (dropWhile is_key_char s))))" for s
  proof (subst greedy_only)
    fix n c rest assume "drop n s = c # rest" "is_key_char c"
    then show "map_option (Pair (take n s)) (match_after_key (dropWhile is_space (drop n s))) = None"
      using key_char_not_punct [of c] by (simp add: match_after_key_key_char)
  next
    show "(if length (takeWhile is_key_char s) < 1 then None
     else map_option (Pair (take (length (takeWhile is_key_char s)) s))
           (match_after_key (dropWhile is_space (drop (length (takeWhile is_key_char s)) s)))) =
    (if takeWhile is_key_char s = [] then None
     else map_option (Pair (takeWhile is_key_char s))
           (match_after_key (dropWhile is_space (dropWhile is_key_char s))))"
      by (simp add: less_Suc_eq_0_disj)
  qed
  have mid': "greedy is_key_char 1 (drop i line) (\<lambda>j. map_option (Pair (take j (drop i line)))
               (match_after_key (dropWhile is_space (drop (i + j) line))))
      = (if takeWhile is_key_char (drop i line) = [] then None
         else map_option (Pair (takeWhile is_key_char (drop i line)))
                (match_after_key (dropWhile is_space (dropWhile is_key_char (drop i line)))))" for i
    using mid [of "drop i line"] by (simp add: add.commute)
  have outer: "greedy is_space 0 line (\<lambda>i.
         if takeWhile is_key_char (drop i line) = [] then None
         else map_option (Pair (takeWhile is_key_char (drop i line)))
                (match_after_key (dropWhile is_space (dropWhile is_key_char (drop i line)))))
      = (if takeWhile is_key_char (dropWhile is_space line) = [] then None
         else map_option (Pair (takeWhile is_key_char (dropWhile is_space line)))
                (match_after_key (dropWhile is_space (dropWhile is_key_char (dropWhile is_space line)))))"
    by (subst greedy_only) (auto simp: space_not_key_char)
  show ?thesis
    unfolding key_pattern_def inner' mid' outer by (simp add: Let_def)
qed

lemma dropWhile_Nil_iff: "dropWhile p s = [] \<longleftrightarrow> (\<forall>c\<in>set s. p c)"
  by (induction s) auto

lemma strip_Nil_iff: "strip s = [] \<longleftrightarrow> (\<forall>c\<in>set s. is_space c)"
proof -
  have "strip s = [] \<longleftrightarrow> (\<forall>c\<in>set (dropWhile is_space s). is_space c)"
    by (simp add: strip_def dropWhile_Nil_iff)
  also have "\<dots> \<longleftrightarrow> dropWhile is_space s = []"
    by (metis dropWhile_Nil_iff dropWhile_idem)
  finally show ?thesis by (simp add: dropWhile_Nil_iff)
qed

lemma strip_Nil [simp]: "strip [] = []"
  by (simp add: strip_def)

lemma splitlines_from_first:
  "cur \<noteq> [] \<or> s \<noteq> [] \<Longrightarrow>
   \<exists>rest. splitlines_from cur s = (cur @ takeWhile (\<lambda>c. \<not> is_linebreak c) s) # rest"
proof (induction cur s rule: splitlines_from.induct)
  case (1 cur)
  then show ?case by simp
next
  case (2 cur c)
  then show ?case by simp
next
  case (3 cur c d cs)
  have cr: "is_linebreak CHR 0x0D"
    by (simp add: is_linebreak_def code_point_def)
  show ?case
  proof (cases "c = CHR 0x0D \<and> d = CHR 0x0A")
    case True
    then show ?thesis using cr by simp
  next
    case False
    then show ?thesis using 3 by (cases "is_linebreak c") auto
  qed
qed

lemma splitlines_first:
  "s \<noteq> [] \<Longrightarrow> \<exists>rest. splitlines s = takeWhile (\<lambda>c. \<not> is_linebreak c) s # rest"
  using splitlines_from_first [of "[]" s] by (simp add: splitlines_def)

lemma summary_finalize [simp]: "summary (finalize n st) = summary st"
  by (simp add: finalize_def Let_def)

lemma summary_process_content [simp]: "summary (process_content l st) = summary st"
  by (simp add: process_content_def Let_def split: option.splits prod.splits)

lemma summary_process_line [simp]: "summary (process_line st l) = summary st"
  by (simp add: process_line_def Let_def)

lemma summary_foldl [simp]: "summary (foldl process_line st ls) = summary st"
  by (induction ls arbitrary: st) simp_all

lemma summary_final_capture [simp]: "summary (final_capture st) = summary st"
  by (simp add: final_capture_def Let_def)

lemma parse_docstring_lines:
  "splitlines (strip text) = l # ls \<Longrightarrow>
   parse_docstring (Some text) = Inr (final_capture (foldl process_line (initial_state l) ls))"
  by (cases "text = []") (simp_all add: parse_docstring_def parse_lines_def splitlines_def)

section \<open>Section headers\<close>

lemma startswith_comparable:
  assumes "startswith s p" "startswith s q"
  shows "startswith p q \<or> startswith q p"
proof (cases "length p \<le> length q")
  case True
  have "take (length p) q = take (length p) (take (length q) s)"
    using assms(2) by (simp add: startswith_def)
  also have "\<dots> = take (length p) s"
    using True by (simp add: min_def)
  finally show ?thesis using assms(1) by (simp add: startswith_def)
next
  case False
  have "take (length q) p = take (length q) (take (length p) s)"
    using assms(1) by (simp add: startswith_def)
  also have "\<dots> = take (length q) s"
    using False by (simp add: min_def)
  finally show ?thesis using assms(2) by (simp add: startswith_def)
qed

lemma startswith_append [simp]: "startswith (h @ t) h"
  by (simp add: startswith_def)

lemma startswith_self [simp]: "startswith h h"
  by (simp add: startswith_def)

lemma startswith_any_iff: "startswith_any s ps \<longleftrightarrow> (\<exists>p\<in>set ps. startswith s p)"
  by (simp add: startswith_any_def list_ex_iff)

lemma incomparableD:
  "list_all (\<lambda>p. list_all (\<lambda>q. \<not> startswith p q \<and> \<not> startswith q p) qs) ps \<Longrightarrow>
   startswith s p \<Longrightarrow> p \<in> set ps \<Longrightarrow> startswith s q \<Longrightarrow> q \<in> set qs \<Longrightarrow> False"
  using startswith_comparable [of s p q]
  by (auto simp: list_all_iff)

lemma exact_raises:
  "list_all (\<lambda>p. list_all (\<lambda>q. \<not> startswith p q \<and> \<not> startswith q p) raises_prefixes) (args_headers @ returns_headers)"
  by code_simp

lemma exact_other:
  "list_all (\<lambda>p. list_all (\<lambda>q. \<not> startswith p q \<and> \<not> startswith q p) other_prefixes) (args_headers @ returns_headers)"
  by code_simp

lemma raises_other:
  "list_all (\<lambda>p. list_all (\<lambda>q. \<not> startswith p q \<and> \<not> startswith q p) other_prefixes) raises_prefixes"
  by code_simp

lemma exact_no_extension:
  "list_all (\<lambda>h. list_all (\<lambda>e. \<not> startswith e h \<or> e = h) (args_headers @ returns_headers))
     (args_headers @ returns_headers)"
  by code_simp

lemma args_returns_disjoint: "list_all (\<lambda>h. h \<notin> set returns_headers) args_headers"
  by code_simp

lemma detect_Args: "detect_section s = Some Args \<longleftrightarrow> s \<in> set args_headers"
  by (simp add: detect_section_def)

lemma detect_Returns: "detect_section s = Some Returns \<longleftrightarrow> s \<in> set returns_headers"
  using args_returns_disjoint by (auto simp add: detect_section_def list_all_iff)

lemma raises_not_exact:
  "startswith_any s raises_prefixes \<Longrightarrow> s \<notin> set args_headers \<and> s \<notin> set returns_headers"
  using incomparableD [OF exact_raises, of s s] by (auto simp: startswith_any_iff)

lemma other_not_exact:
  "startswith_any s other_prefixes \<Longrightarrow> s \<notin> set args_headers \<and> s \<notin> set returns_headers"
  using incomparableD [OF exact_other, of s s] by (auto simp: startswith_any_iff)

lemma other_not_raises:
  "startswith_any s other_prefixes \<Longrightarrow> \<not> startswith_any s raises_prefixes"
  using incomparableD [OF raises_other, of s] by (auto simp: startswith_any_iff)

lemma detect_Raises: "detect_section s = Some Raises \<longleftrightarrow> startswith_any s raises_prefixes"
  using raises_not_exact [of s] by (auto simp: detect_section_def)

lemma detect_Other: "detect_section s = Some Other \<longleftrightarrow> startswith_any s other_prefixes"
  using other_not_exact [of s] other_not_raises [of s] by (auto simp: detect_section_def)

lemma detect_near_miss:
  assumes "h \<in> set (args_headers @ returns_headers)" "t \<noteq> []"
  shows "detect_section (h @ t) = None"
proof -
  have "h @ t \<notin> set (args_headers @ returns_headers)"
  proof
    assume "h @ t \<in> set (args_headers @ returns_headers)"
    with exact_no_extension assms(1) have "\<not> startswith (h @ t) h \<or> h @ t = h"
      unfolding list_all_iff by blast
    with assms(2) show False by simp
  qed
  moreover have "\<not> startswith_any (h @ t) raises_prefixes"
    using incomparableD [OF exact_raises, of "h @ t" h] assms(1)
    by (auto simp: startswith_any_iff)
  moreover have "\<not> startswith_any (h @ t) other_prefixes"
    using incomparableD [OF exact_other, of "h @ t" h] assms(1)
    by (auto simp: startswith_any_iff)
  ultimately show ?thesis
    by (simp add: detect_section_def)
qed

section \<open>Steps of the scanner\<close>

lemma lower_Nil_iff [simp]: "lower s = [] \<longleftrightarrow> s = []"
  by (simp add: lower_def)

lemma detect_section_Nil: "detect_section [] = None"
  by code_simp

lemma header_of_blank: "strip line = [] \<Longrightarrow> header_of line = None"
  by (simp add: header_of_def detect_section_Nil lower_def)

lemma process_line_blank: "strip line = [] \<Longrightarrow> process_line st line = st"
  by (simp add: process_line_def)

lemma process_line_header:
  "header_of line = Some s \<Longrightarrow> process_line st line = finalize (Some s) st"
  using header_of_blank [of line] by (auto simp: process_line_def Let_def)

lemma process_line_content:
  "header_of line = None \<Longrightarrow> strip line \<noteq> [] \<Longrightarrow>
   process_line st line =
     process_content line
       (if (((current_section st = Some Args \<or> current_section st = Some Raises)
              \<and> truthy (current_key st))
            \<or> (current_section st = Some Returns \<and> current_desc_lines st \<noteq> []))
           \<and> \<not> startswith line '' ''
        then finalize None st else st)"
  by (auto simp: process_line_def Let_def)

lemma key_pattern_not_blank: "key_pattern line = Some kd \<Longrightarrow> strip line \<noteq> []"
proof -
  assume "key_pattern line = Some kd"
  then have "takeWhile is_key_char (dropWhile is_space line) \<noteq> []"
    by (auto simp: key_pattern_eq Let_def split: if_splits)
  then have "dropWhile is_space line \<noteq> []" by (cases "dropWhile is_space line") simp_all
  then show ?thesis
    by (simp add: strip_Nil_iff dropWhile_Nil_iff)
qed

lemma key_pattern_key: "key_pattern line = Some (k, d) \<Longrightarrow> k \<noteq> []"
  by (auto simp: key_pattern_eq Let_def split: if_splits)

lemma process_content_none:
  "current_section st = None \<or> current_section st = Some Other \<Longrightarrow> process_content line st = st"
  by (auto simp: process_content_def)

lemma process_content_key:
  assumes "current_section st = Some Args \<or> current_section st = Some Raises"
    and "key_pattern line = Some (k, d)"
  shows "process_content line st =
     (if truthy (current_key st) then
        (if current_section st = Some Args
         then st\<lparr>args := AList.update (the (current_key st)) (pending_desc st) (args st),
                 current_key := Some k, current_desc_lines := [strip d]\<rparr>
         else st\<lparr>raises := AList.update (the (current_key st)) (pending_desc st) (raises st),
                 current_key := Some k, current_desc_lines := [strip d]\<rparr>)
      else st\<lparr>current_key := Some k, current_desc_lines := [strip d]\<rparr>)"
  using assms by (auto simp: process_content_def Let_def)

lemma entries_simps [simp]:
  "entries Args r = args r" "entries Raises r = raises r"
  "entries Returns r = []" "entries Other r = []"
  by (simp_all add: entries_def)

lemma known_keys_finalize:
  "sec = Args \<or> sec = Raises \<Longrightarrow> known_keys sec st \<subseteq> known_keys sec (finalize n st)"
  by (auto simp: known_keys_def finalize_def Let_def AList.dom_update truthy_def)

lemma known_keys_process_content:
  "sec = Args \<or> sec = Raises \<Longrightarrow> known_keys sec st \<subseteq> known_keys sec (process_content l st)"
  by (auto simp: known_keys_def process_content_def Let_def AList.dom_update truthy_def
           split: option.splits)

lemma known_keys_process_line:
  assumes "sec = Args \<or> sec = Raises"
  shows "known_keys sec st \<subseteq> known_keys sec (process_line st l)"
proof -
  note f = known_keys_finalize [OF assms]
  note c = known_keys_process_content [OF assms]
  show ?thesis
    unfolding process_line_def Let_def
    using f [of st "header_of l"] c [of st l] c [of "finalize (header_of l) st" l]
    by (auto simp del: )
qed

lemma known_keys_foldl:
  "sec = Args \<or> sec = Raises \<Longrightarrow> known_keys sec st \<subseteq> known_keys sec (foldl process_line st ls)"
proof (induction ls arbitrary: st)
  case Nil
  then show ?case by simp
next
  case (Cons l ls)
  then show ?case
    using known_keys_process_line [of sec st l] by fastforce
qed

lemma known_keys_final_capture:
  "sec = Args \<or> sec = Raises \<Longrightarrow> known_keys sec st \<subseteq> fst ` set (entries sec (final_capture st))"
  by (auto simp: known_keys_def final_capture_def Let_def AList.dom_update truthy_def)

lemma strip_no_space_ends:
  "strip s = [] \<or> (\<not> is_space (hd (strip s)) \<and> \<not> is_space (last (strip s)))"
proof (cases "strip s = []")
  case True
  then show ?thesis by simp
next
  case False
  let ?u = "dropWhile is_space s"
  let ?v = "dropWhile is_space (rev ?u)"
  have v: "?v \<noteq> []" using False by (simp add: strip_def)
  then have hv: "\<not> is_space (hd ?v)" by (rule hd_dropWhile)
  have l: "last (strip s) = hd ?v"
    using v by (simp add: strip_def last_rev)
  have u: "?u \<noteq> []"
  proof
    assume "?u = []"
    then have "?v = []" by (metis dropWhile.simps(1) rev.simps(1))
    with v show False by blast
  qed
  then have hu: "\<not> is_space (hd ?u)" by (rule hd_dropWhile)
  have "rev ?u = takeWhile is_space (rev ?u) @ ?v" by simp
  then have "?u = rev ?v @ rev (takeWhile is_space (rev ?u))"
    by (metis rev_append rev_rev_ident)
  then have "hd ?u = hd (rev ?v)" using v by (metis hd_append2 rev_is_Nil_conv)
  then have "hd (strip s) = hd ?u" by (simp add: strip_def)
  with hu hv l show ?thesis by simp
qed

lemma dropWhile_hd_id: "xs \<noteq> [] \<Longrightarrow> \<not> p (hd xs) \<Longrightarrow> dropWhile p xs = xs"
  by (cases xs) simp_all

lemma strip_id:
  assumes "s = [] \<or> (\<not> is_space (hd s) \<and> \<not> is_space (last s))"
  shows "strip s = s"
proof (cases "s = []")
  case True
  then show ?thesis by simp
next
  case False
  with assms have h: "\<not> is_space (hd s)" and l: "\<not> is_space (last s)" by simp_all
  have 1: "dropWhile is_space s = s"
    using False h by (rule dropWhile_hd_id)
  have "hd (rev s) = last s" using False by (simp add: hd_rev)
  then have 2: "dropWhile is_space (rev s) = rev s"
    using False l by (intro dropWhile_hd_id) simp_all
  show ?thesis by (simp add: strip_def 1 2)
qed

lemma strip_strip [simp]: "strip (strip s) = strip s"
  using strip_no_space_ends [of s] by (rule strip_id)

lemma process_line_key_line:
  assumes "current_section st = Some Args \<or> current_section st = Some Raises"
    and "truthy (current_key st)"
    and "startswith line '' ''"
    and "key_pattern line = Some (k, d)"
    and "header_of line = None"
  shows "process_line st line =
     (if current_section st = Some Args
      then st\<lparr>args := AList.update (the (current_key st)) (pending_desc st) (args st),
              current_key := Some k, current_desc_lines := [strip d]\<rparr>
      else st\<lparr>raises := AList.update (the (current_key st)) (pending_desc st) (raises st),
              current_key := Some k, current_desc_lines := [strip d]\<rparr>)"
proof -
  have "strip line \<noteq> []"
    using assms(4) by (rule key_pattern_not_blank)
  then have "process_line st line = process_content line st"
    using assms(3,5) by (simp add: process_line_content)
  then show ?thesis
    using assms(1,2,4) by (simp add: process_content_key)
qed

lemma no_section_stable:
  assumes "current_section st = None" "header_of l = None"
  shows "process_line st l = st"
proof (cases "strip l = []")
  case True
  then show ?thesis by (rule process_line_blank)
next
  case False
  then show ?thesis
    using assms by (simp add: process_line_content process_content_none)
qed

lemma no_section_stable_foldl:
  "current_section st = None \<Longrightarrow> \<forall>l\<in>set ls. header_of l = None \<Longrightarrow> foldl process_line st ls = st"
  by (induction ls) (simp_all add: no_section_stable)

lemma final_capture_no_section:
  "current_section st = None \<Longrightarrow>
   final_capture st = \<lparr>summary = summary st, args = args st, returns = returns st, raises = raises st\<rparr>"
  by (simp add: final_capture_def Let_def)

lemma process_line_dedent:
  assumes "((current_section st = Some Args \<or> current_section st = Some Raises)
              \<and> truthy (current_key st))
           \<or> (current_section st = Some Returns \<and> current_desc_lines st \<noteq> [])"
    and "\<not> startswith line '' ''" and "strip line \<noteq> []" and "header_of line = None"
  shows "process_line st line = finalize None st"
proof -
  have "process_line st line = process_content line (finalize None st)"
    using assms by (simp add: process_line_content)
  moreover have "current_section (finalize None st) = None"
    by (simp add: finalize_def Let_def)
  ultimately show ?thesis
    by (simp add: process_content_none)
qed

section \<open>Case, blank lines and line splitting\<close>

lemma is_space_lower_char [simp]: "is_space (lower_char c) = is_space c"
proof -
  have "of_char (char_of (code_point c + 32) :: char) = code_point c + 32"
    if "code_point c \<le> 222"
    using that by (simp add: code_point_def)
  then show ?thesis
    by (auto simp: lower_char_def is_space_def Let_def code_point_def)
qed

lemma dropWhile_space_lower: "dropWhile is_space (lower s) = lower (dropWhile is_space s)"
  by (induction s) (simp_all add: lower_def)

lemma rev_lower: "rev (lower s) = lower (rev s)"
  by (simp add: lower_def rev_map)

lemma strip_lower: "strip (lower s) = lower (strip s)"
  by (simp add: strip_def dropWhile_space_lower rev_lower)

lemma strip_append_space_right:
  assumes "\<forall>c\<in>set w. is_space c"
  shows "strip (s @ w) = strip s"
proof (cases "\<forall>c\<in>set s. is_space c")
  case True
  then have "strip (s @ w) = []" "strip s = []"
    using assms by (auto simp: strip_Nil_iff)
  then show ?thesis by simp
next
  case False
  then show ?thesis
    using assms by (auto simp: strip_def dropWhile_append)
qed

lemma strip_append_space_left:
  "\<forall>c\<in>set w. is_space c \<Longrightarrow> strip (w @ s) = strip s"
  by (simp add: strip_def dropWhile_append)

lemma strip_middle:
  assumes "\<exists>c\<in>set p. \<not> is_space c" "\<exists>c\<in>set q. \<not> is_space c"
  shows "strip (p @ m @ q) = dropWhile is_space p @ m @ rev (dropWhile is_space (rev q))"
proof -
  have 1: "dropWhile is_space (p @ m @ q) = dropWhile is_space p @ m @ q"
    using assms(1) by (auto simp: dropWhile_append)
  have 2: "dropWhile is_space (rev q @ rev m @ rev (dropWhile is_space p))
           = dropWhile is_space (rev q) @ rev m @ rev (dropWhile is_space p)"
    using assms(2) by (auto simp: dropWhile_append)
  show ?thesis
    by (simp add: strip_def 1 2)
qed

lemma is_space_LF [simp]: "is_space CHR 0x0A"
  by (simp add: is_space_def code_point_def)

lemma is_linebreak_LF [simp]: "is_linebreak CHR 0x0A"
  by (simp add: is_linebreak_def code_point_def)

lemma is_linebreak_CR [simp]: "is_linebreak CHR 0x0D"
  by (simp add: is_linebreak_def code_point_def)

lemma splitlines_from_LF:
  "splitlines_from cur (s @ CHR 0x0A # r) =
   splitlines_from cur (s @ [CHR 0x0A]) @ splitlines_from [] r"
proof (induction cur s rule: splitlines_from.induct)
  case (1 cur)
  then show ?case by (cases r) simp_all
next
  case (2 cur c)
  then show ?case by (cases r) auto
next
  case (3 cur c d cs)
  then show ?case by auto
qed

lemma splitlines_from_chars:
  "l \<in> set (splitlines_from cur s) \<Longrightarrow> set l \<subseteq> set cur \<union> set s"
proof (induction cur s arbitrary: l rule: splitlines_from.induct)
  case (1 cur)
  then show ?case by (auto split: if_splits)
next
  case (2 cur c)
  then show ?case by (auto split: if_splits)
next
  case (3 cur c d cs)
  show ?case
  proof (cases "c = CHR 0x0D \<and> d = CHR 0x0A")
    case True
    with 3(4) have "l = cur \<or> l \<in> set (splitlines_from [] cs)" by simp
    then show ?thesis
    proof
      assume "l = cur" then show ?thesis by auto
    next
      assume "l \<in> set (splitlines_from [] cs)"
      from 3(1) [OF True this] show ?thesis by auto
    qed
  next
    case False
    note nf = this
    show ?thesis
    proof (cases "is_linebreak c")
      case True
      with nf 3(4) have "l = cur \<or> l \<in> set (splitlines_from [] (d # cs))"
        by (auto split: if_splits)
      then show ?thesis
      proof
        assume "l = cur" then show ?thesis by auto
      next
        assume "l \<in> set (splitlines_from [] (d # cs))"
        from 3(2) [OF nf True this] show ?thesis by auto
      qed
    next
      case False
      with nf 3(4) have "l \<in> set (splitlines_from (cur @ [c]) (d # cs))"
        by (auto split: if_splits)
      from 3(3) [OF nf False this] show ?thesis by auto
    qed
  qed
qed

lemma splitlines_from_nonempty: "s \<noteq> [] \<Longrightarrow> splitlines_from cur s \<noteq> []"
  using splitlines_from_first [of cur s] by auto

lemma foldl_process_line_blank:
  "\<forall>l\<in>set bs. strip l = [] \<Longrightarrow> foldl process_line st bs = st"
  by (induction bs) (simp_all add: process_line_blank)

lemma blank_text_lines:
  assumes "\<forall>c\<in>set w. is_space c" "l \<in> set (splitlines_from [] (w @ [CHR 0x0A]))"
  shows "strip l = []"
proof -
  have "set l \<subseteq> set (w @ [CHR 0x0A])"
    using splitlines_from_chars [OF assms(2)] by simp
  then have "\<forall>c\<in>set l. is_space c"
    using assms(1) by auto
  then show ?thesis by (simp add: strip_Nil_iff)
qed

lemma parse_docstring_insert_blank_text:
  assumes w: "\<forall>c\<in>set w. is_space c"
  shows "parse_docstring (Some (a @ CHR 0x0A # w @ CHR 0x0A # b)) =
         parse_docstring (Some (a @ CHR 0x0A # b))"
proof -
  let ?T' = "a @ CHR 0x0A # w @ CHR 0x0A # b"
  let ?T = "a @ CHR 0x0A # b"
  have ne: "?T' \<noteq> []" "?T \<noteq> []" by simp_all
  have same: "parse_docstring (Some ?T') = parse_docstring (Some ?T)"
    if "strip ?T' = strip ?T"
    using that ne by (simp add: parse_docstring_def)
  consider (a) "\<forall>c\<in>set a. is_space c" | (b) "\<forall>c\<in>set b. is_space c"
    | (ab) "\<exists>c\<in>set a. \<not> is_space c" "\<exists>c\<in>set b. \<not> is_space c"
    by blast
  then show ?thesis
  proof cases
    case a
    have "strip ((a @ CHR 0x0A # w @ [CHR 0x0A]) @ b) = strip b"
      using a w by (intro strip_append_space_left) auto
    moreover have "strip ((a @ [CHR 0x0A]) @ b) = strip b"
      using a by (intro strip_append_space_left) auto
    ultimately show ?thesis by (intro same) simp
  next
    case b
    have "strip (a @ (CHR 0x0A # w @ CHR 0x0A # b)) = strip a"
      using b w by (intro strip_append_space_right) auto
    moreover have "strip (a @ (CHR 0x0A # b)) = strip a"
      using b by (intro strip_append_space_right) auto
    ultimately show ?thesis by (intro same) simp
  next
    case ab
    let ?A = "dropWhile is_space a"
    let ?B = "rev (dropWhile is_space (rev b))"
    have s': "strip ?T' = ?A @ CHR 0x0A # w @ CHR 0x0A # ?B"
      using strip_middle [OF ab, of "CHR 0x0A # w @ [CHR 0x0A]"] by simp
    have s: "strip ?T = ?A @ CHR 0x0A # ?B"
      using strip_middle [OF ab, of "[CHR 0x0A]"] by simp
    let ?L = "splitlines_from [] (?A @ [CHR 0x0A])"
    let ?W = "splitlines_from [] (w @ [CHR 0x0A])"
    have "?L \<noteq> []" by (rule splitlines_from_nonempty) simp
    then obtain l0 xs where L: "?L = l0 # xs" by (cases ?L) auto
    have "splitlines_from [] (?A @ CHR 0x0A # w @ CHR 0x0A # ?B)
          = ?L @ splitlines_from [] (w @ CHR 0x0A # ?B)"
      by (rule splitlines_from_LF)
    also have "splitlines_from [] (w @ CHR 0x0A # ?B) = ?W @ splitlines_from [] ?B"
      by (rule splitlines_from_LF)
    finally have l': "splitlines (strip ?T') = l0 # xs @ ?W @ splitlines ?B"
      unfolding s' splitlines_def L by simp
    have "splitlines_from [] (?A @ CHR 0x0A # ?B) = ?L @ splitlines_from [] ?B"
      by (rule splitlines_from_LF)
    then have l: "splitlines (strip ?T) = l0 # xs @ splitlines ?B"
      unfolding s splitlines_def L by simp
    have bl: "\<forall>l\<in>set ?W. strip l = []"
      using blank_text_lines [OF w] by blast
    show ?thesis
      unfolding parse_docstring_lines [OF l'] parse_docstring_lines [OF l]
      by (simp add: foldl_process_line_blank [OF bl])
  qed
qed

section \<open>Entries of Args and Raises\<close>

lemma process_line_opens:
  assumes "sec = Args \<or> sec = Raises" "opens_key sec k st l" "key_pattern l = Some (k, d)"
  shows "process_line st l =
     (if truthy (current_key st) then
        (if sec = Args
         then st\<lparr>args := AList.update (the (current_key st)) (pending_desc st) (args st),
                 current_key := Some k, current_desc_lines := [strip d]\<rparr>
         else st\<lparr>raises := AList.update (the (current_key st)) (pending_desc st) (raises st),
                 current_key := Some k, current_desc_lines := [strip d]\<rparr>)
      else st\<lparr>current_key := Some k, current_desc_lines := [strip d]\<rparr>)"
proof -
  have nb: "strip l \<noteq> []"
    using assms(3) by (rule key_pattern_not_blank)
  have h: "header_of l = None" and s: "current_section st = Some sec"
    and i: "startswith l '' '' \<or> \<not> truthy (current_key st)"
    using assms(2) by (simp_all add: opens_key_def)
  have "process_line st l = process_content l st"
    using assms(1) s i by (auto simp: process_line_content [OF h nb])
  moreover have "current_section st = Some Args \<or> current_section st = Some Raises"
    using assms(1) s by auto
  ultimately show ?thesis
    using assms(1,3) s by (auto simp: process_content_key)
qed

lemma process_line_continuation:
  assumes "current_section st = Some Args \<or> current_section st = Some Raises"
    and "truthy (current_key st)" and "is_continuation l"
  shows "process_line st l = st\<lparr>current_desc_lines := current_desc_lines st @ [strip l]\<rparr>"
proof -
  have c: "strip l \<noteq> []" "startswith l '' ''" "header_of l = None" "key_pattern l = None"
    using assms(3) by (simp_all add: is_continuation_def)
  have "process_line st l = process_content l st"
    using c by (simp add: process_line_content)
  then show ?thesis
    using assms(1,2) c by (auto simp: process_content_def)
qed

lemma foldl_continuations:
  assumes "current_section st = Some Args \<or> current_section st = Some Raises"
    and "truthy (current_key st)"
    and "\<forall>l\<in>set cs. strip l = [] \<or> is_continuation l"
  shows "foldl process_line st cs =
         st\<lparr>current_desc_lines :=
              current_desc_lines st @ map strip (filter (\<lambda>l. strip l \<noteq> []) cs)\<rparr>"
  using assms
proof (induction cs arbitrary: st)
  case Nil
  then show ?case by simp
next
  case (Cons l cs)
  show ?case
  proof (cases "strip l = []")
    case True
    then show ?thesis
      using Cons by (simp add: process_line_blank)
  next
    case False
    then have c: "is_continuation l" using Cons.prems(3) by simp
    let ?st = "st\<lparr>current_desc_lines := current_desc_lines st @ [strip l]\<rparr>"
    have step: "process_line st l = ?st"
      using Cons.prems(1,2) c by (rule process_line_continuation)
    have "foldl process_line ?st cs =
          ?st\<lparr>current_desc_lines :=
              current_desc_lines ?st @ map strip (filter (\<lambda>l. strip l \<noteq> []) cs)\<rparr>"
      using Cons.prems by (intro Cons.IH) simp_all
    then show ?thesis
      using False by (simp add: step)
  qed
qed

lemma map_of_update_other: "k' \<noteq> k \<Longrightarrow> map_of (AList.update k' v al) k = map_of al k"
  by (simp add: AList.update_conv')

lemma map_of_update_same: "map_of (AList.update k v al) k = Some v"
  by (simp add: AList.update_conv')

lemma settled_finalize:
  assumes "sec = Args \<or> sec = Raises" "entry_settled sec k v st"
  shows "entry_settled sec k v (finalize n st)"
  using assms
  by (cases "current_key st")
     (auto simp: entry_settled_def finalize_def Let_def truthy_def map_of_update_other)

lemma settled_process_content:
  assumes "sec = Args \<or> sec = Raises" "entry_settled sec k v st"
    and "current_section st = Some sec \<longrightarrow> map_option fst (key_pattern l) \<noteq> Some k"
  shows "entry_settled sec k v (process_content l st)"
  using assms
  by (cases "current_key st")
     (auto simp: entry_settled_def process_content_def Let_def truthy_def map_of_update_other
           split: option.splits)

lemma settled_process_line:
  assumes "sec = Args \<or> sec = Raises" "entry_settled sec k v st" "\<not> opens_key sec k st l"
  shows "entry_settled sec k v (process_line st l)"
proof (cases "strip l = []")
  case True
  then show ?thesis using assms(2) by (simp add: process_line_blank)
next
  case nb: False
  show ?thesis
  proof (cases "header_of l")
    case (Some s)
    then show ?thesis
      using assms(1,2) by (simp add: process_line_header settled_finalize)
  next
    case None
    let ?dedent = "(((current_section st = Some Args \<or> current_section st = Some Raises)
              \<and> truthy (current_key st))
            \<or> (current_section st = Some Returns \<and> current_desc_lines st \<noteq> []))
           \<and> \<not> startswith l '' ''"
    note pl = process_line_content [OF None nb, of st]
    show ?thesis
    proof (cases ?dedent)
      case True
      have "current_section (finalize None st) = None"
        by (simp add: finalize_def Let_def)
      then have "process_content l (finalize None st) = finalize None st"
        by (simp add: process_content_none)
      moreover have "process_line st l = process_content l (finalize None st)"
        using pl True by simp
      ultimately show ?thesis
        using assms(1,2) by (simp add: settled_finalize)
    next
      case False
      have "current_section st = Some sec \<longrightarrow> map_option fst (key_pattern l) \<noteq> Some k"
        using False assms(1,3) None by (auto simp: opens_key_def)
      then have "entry_settled sec k v (process_content l st)"
        using assms(1,2) by (intro settled_process_content) simp_all
      moreover have "process_line st l = process_content l st"
        using pl False by (simp only: if_False)
      ultimately show ?thesis by simp
    qed
  qed
qed

lemma settled_foldl:
  "sec = Args \<or> sec = Raises \<Longrightarrow> entry_settled sec k v st \<Longrightarrow> no_later_key sec k st ls \<Longrightarrow>
   entry_settled sec k v (foldl process_line st ls)"
  by (induction ls arbitrary: st) (simp_all add: settled_process_line)

lemma settled_final:
  "sec = Args \<or> sec = Raises \<Longrightarrow> entry_settled sec k v st \<Longrightarrow>
   map_of (entries sec (final_capture st)) k = Some v"
  by (cases "current_key st")
     (auto simp: entry_settled_def final_capture_def Let_def truthy_def map_of_update_other)

lemma pending_final:
  "sec = Args \<or> sec = Raises \<Longrightarrow> current_section st = Some sec \<Longrightarrow> current_key st = Some k \<Longrightarrow>
   k \<noteq> [] \<Longrightarrow> map_of (entries sec (final_capture st)) k = Some (pending_desc st)"
  by (auto simp: final_capture_def Let_def truthy_def map_of_update_same)

lemma pending_finalize:
  "sec = Args \<or> sec = Raises \<Longrightarrow> current_section st = Some sec \<Longrightarrow> current_key st = Some k \<Longrightarrow>
   k \<noteq> [] \<Longrightarrow> entry_settled sec k (pending_desc st) (finalize n st)"
  by (auto simp: entry_settled_def finalize_def Let_def truthy_def map_of_update_same)

lemma pending_terminated:
  assumes "sec = Args \<or> sec = Raises" "current_section st = Some sec" "current_key st = Some k"
    and "k \<noteq> []" "strip t \<noteq> []" "\<not> is_continuation t" "\<not> opens_key sec k st t"
  shows "entry_settled sec k (pending_desc st) (process_line st t)"
proof (cases "header_of t")
  case (Some s)
  then show ?thesis
    using assms(1-4) by (simp add: process_line_header pending_finalize)
next
  case None
  have tr: "truthy (current_key st)" using assms(3,4) by (simp add: truthy_def)
  have sec: "current_section st = Some Args \<or> current_section st = Some Raises"
    using assms(1,2) by auto
  show ?thesis
  proof (cases "startswith t '' ''")
    case False
    have "process_line st t = finalize None st"
      using sec tr False assms(5) None by (intro process_line_dedent) simp_all
    then show ?thesis
      using assms(1-4) by (simp add: pending_finalize)
  next
    case True
    then obtain k' d' where m: "key_pattern t = Some (k', d')"
      using assms(5,6) None by (cases "key_pattern t") (auto simp: is_continuation_def)
    have ne: "k' \<noteq> k"
      using assms(7) None assms(2) True m by (auto simp: opens_key_def)
    have "process_line st t =
      (if current_section st = Some Args
       then st\<lparr>args := AList.update (the (current_key st)) (pending_desc st) (args st),
              current_key := Some k', current_desc_lines := [strip d']\<rparr>
       else st\<lparr>raises := AList.update (the (current_key st)) (pending_desc st) (raises st),
              current_key := Some k', current_desc_lines := [strip d']\<rparr>)"
      using sec tr True m None by (rule process_line_key_line)
    then show ?thesis
      using assms(1-3) ne by (auto simp: entry_settled_def map_of_update_same)
  qed
qed

lemma entry_committed:
  assumes "sec = Args \<or> sec = Raises" "current_section st = Some sec" "current_key st = Some k"
    and "k \<noteq> []"
    and "post = [] \<or> (strip (hd post) \<noteq> [] \<and> \<not> is_continuation (hd post))"
    and "no_later_key sec k st post"
  shows "map_of (entries sec (final_capture (foldl process_line st post))) k = Some (pending_desc st)"
proof (cases post)
  case Nil
  then show ?thesis using assms(1-4) by (simp add: pending_final)
next
  case (Cons t ts)
  have "entry_settled sec k (pending_desc st) (process_line st t)"
    using assms Cons by (intro pending_terminated) simp_all
  then have "entry_settled sec k (pending_desc st) (foldl process_line (process_line st t) ts)"
    using assms(1,6) Cons by (intro settled_foldl) simp_all
  then show ?thesis
    using assms(1) Cons by (simp add: settled_final)
qed

lemma keys_distinct_finalize: "keys_distinct st \<Longrightarrow> keys_distinct (finalize n st)"
  by (auto simp: keys_distinct_def finalize_def Let_def AList.distinct_update)

lemma keys_distinct_process_content: "keys_distinct st \<Longrightarrow> keys_distinct (process_content l st)"
  by (auto simp: keys_distinct_def process_content_def Let_def AList.distinct_update
           split: option.splits)

lemma keys_distinct_process_line: "keys_distinct st \<Longrightarrow> keys_distinct (process_line st l)"
  by (simp add: process_line_def Let_def keys_distinct_finalize keys_distinct_process_content)

lemma keys_distinct_foldl: "keys_distinct st \<Longrightarrow> keys_distinct (foldl process_line st ls)"
  by (induction ls arbitrary: st) (simp_all add: keys_distinct_process_line)

lemma keys_distinct_initial: "keys_distinct (initial_state l)"
  by (simp add: keys_distinct_def initial_state_def)

lemma keys_distinct_final_capture: "keys_distinct st \<Longrightarrow> keys_distinct (final_capture st)"
  by (auto simp: keys_distinct_def final_capture_def Let_def AList.distinct_update)

lemma keys_distinct_entries:
  "keys_distinct r \<Longrightarrow> distinct (map fst (entries sec r))"
  by (cases sec) (simp_all add: keys_distinct_def)

lemma filter_key_unique:
  "distinct (map fst al) \<Longrightarrow> map_of al k = Some v \<Longrightarrow> filter (\<lambda>e. fst e = k) al = [(k, v)]"
proof (induction al)
  case Nil
  then show ?case by simp
next
  case (Cons e al)
  show ?case
  proof (cases "fst e = k")
    case True
    then have "k \<notin> fst ` set al" using Cons.prems(1) by auto
    then have "filter (\<lambda>e. fst e = k) al = []"
      by (auto simp: filter_empty_conv)
    then show ?thesis using True Cons.prems(2) by (cases e) auto
  next
    case False
    then show ?thesis using Cons by (cases e) auto
  qed
qed

lemma opens_key_section:
  "sec = Args \<or> sec = Raises \<Longrightarrow> opens_key sec k st l \<Longrightarrow> key_pattern l = Some (k, d) \<Longrightarrow>
   current_section (process_line st l) = Some sec
   \<and> current_key (process_line st l) = Some k
   \<and> current_desc_lines (process_line st l) = [strip d]"
  by (auto simp: process_line_opens) (simp_all add: opens_key_def)

lemma entry_after_key_line:
  assumes sec: "sec = Args \<or> sec = Raises"
    and o: "opens_key sec k st kl" and m: "key_pattern kl = Some (k, d)"
    and cs: "\<forall>l\<in>set cs. strip l = [] \<or> is_continuation l"
    and p: "post = [] \<or> (strip (hd post) \<noteq> [] \<and> \<not> is_continuation (hd post))"
    and n: "no_later_key sec k (foldl process_line st (kl # cs)) post"
  shows "map_of (entries sec (final_capture (foldl process_line st (kl # cs @ post)))) k =
         Some (strip (join_space (strip d # map strip (filter (\<lambda>l. strip l \<noteq> []) cs))))"
proof -
  let ?s1 = "process_line st kl"
  note s1 = opens_key_section [OF sec o m]
  have k: "k \<noteq> []" using m by (rule key_pattern_key)
  have tr: "truthy (current_key ?s1)" using s1 k by (simp add: truthy_def)
  have sc: "current_section ?s1 = Some Args \<or> current_section ?s1 = Some Raises"
    using s1 sec by auto
  let ?s2 = "foldl process_line ?s1 cs"
  have s2: "?s2 = ?s1\<lparr>current_desc_lines :=
              current_desc_lines ?s1 @ map strip (filter (\<lambda>l. strip l \<noteq> []) cs)\<rparr>"
    using sc tr cs by (rule foldl_continuations)
  have a: "current_section ?s2 = Some sec" "current_key ?s2 = Some k"
    using s1 by (simp_all add: s2)
  have pd: "pending_desc ?s2 =
            strip (join_space (strip d # map strip (filter (\<lambda>l. strip l \<noteq> []) cs)))"
    using s1 by (simp add: s2 pending_desc_def)
  have "map_of (entries sec (final_capture (foldl process_line ?s2 post))) k
        = Some (pending_desc ?s2)"
    using sec a k p n by (intro entry_committed) simp_all
  then show ?thesis by (simp add: pd)
qed

lemma list_all_ball: "list_all P xs \<Longrightarrow> \<forall>x\<in>set xs. P x"
  by (simp add: list_all_iff)

lemma key_pattern_bare:
  assumes "k \<noteq> []" "\<forall>c\<in>set k. is_key_char c" "\<forall>c\<in>set ind. is_space c"
    and "\<forall>c\<in>set tr. is_space c"
  shows "key_pattern (ind @ k @ CHR '':'' # tr) = Some (k, [])"
proof -
  obtain c k' where k: "k = c # k'" using assms(1) by (cases k) auto
  have c: "is_key_char c" using assms(2) k by simp
  then have nc: "\<not> is_space c" using space_not_key_char by blast
  have 1: "dropWhile is_space (ind @ k @ CHR '':'' # tr) = k @ CHR '':'' # tr"
    using assms(3) nc by (simp add: k dropWhile_append)
  have colon: "\<not> is_key_char CHR '':''" "\<not> is_space CHR '':''"
    using key_char_not_punct [of "CHR '':''"] space_not_punct [of "CHR '':''"] by auto
  have 2: "takeWhile is_key_char (k @ CHR '':'' # tr) = k"
    using assms(2) colon by (simp add: takeWhile_append)
  have 3: "dropWhile is_key_char (k @ CHR '':'' # tr) = CHR '':'' # tr"
    using assms(2) colon by (simp add: dropWhile_append)
  have 4: "dropWhile is_space tr = []"
    using assms(4) by (simp add: dropWhile_Nil_iff)
  have 5: "match_after_key (CHR '':'' # tr) = Some []"
    by (simp add: match_after_key_def match_annotation_def match_colon_def match_desc_eq 4)
  show ?thesis
    using assms(1) colon by (simp add: key_pattern_eq Let_def 1 2 3 5)
qed

lemma opens_key_known:
  assumes "sec = Args \<or> sec = Raises" "opens_key sec k st kl" "key_pattern kl = Some (k, d)"
  shows "k \<in> fst ` set (entries sec (final_capture (foldl process_line st (kl # rest))))"
proof -
  note s1 = opens_key_section [OF assms]
  have k: "k \<noteq> []" using assms(3) by (rule key_pattern_key)
  have "k \<in> known_keys sec (process_line st kl)"
    using s1 k by (simp add: known_keys_def truthy_def)
  also have "\<dots> \<subseteq> known_keys sec (foldl process_line (process_line st kl) rest)"
    using assms(1) by (rule known_keys_foldl)
  also have "\<dots> \<subseteq> fst ` set (entries sec (final_capture (foldl process_line (process_line st kl) rest)))"
    using assms(1) by (rule known_keys_final_capture)
  finally show ?thesis by simp
qed

section \<open>Properties of the parser\<close>

text \<open>
  C1, as the code has it. Inside Args or Raises with a pending key, a line that matches
  the key pattern, starts with a space and is no section header commits the pending
  entry to the dictionary of the section and opens a new pending entry, with group 1 as
  the key and group 2 stripped as the first description line; both keys are in the
  returned dictionary, whatever lines follow.
\<close>

theorem indented_key_line_opens_entry:
  assumes "sec = Args \<or> sec = Raises"
    and "current_section st = Some sec"
    and "truthy (current_key st)"
    and "startswith line '' ''"
    and "header_of line = None"
    and "key_pattern line = Some (k, d)"
  shows "entries sec (process_line st line) =
           AList.update (the (current_key st)) (strip (join_space (current_desc_lines st)))
             (entries sec st)
         \<and> current_section (process_line st line) = Some sec
         \<and> current_key (process_line st line) = Some k
         \<and> current_desc_lines (process_line st line) = [strip d]
         \<and> {the (current_key st), k}
             \<subseteq> fst ` set (entries sec (final_capture (foldl process_line st (line # rest))))"
proof -
  have s: "current_section st = Some Args \<or> current_section st = Some Raises"
    using assms(1,2) by auto
  note step = process_line_key_line [OF s assms(3,4,6,5)]
  have k: "k \<noteq> []" using assms(6) by (rule key_pattern_key)
  have 1: "entries sec (process_line st line) =
           AList.update (the (current_key st)) (strip (join_space (current_desc_lines st)))
             (entries sec st)"
    using assms(1,2) by (auto simp: step pending_desc_def)
  have 2: "current_section (process_line st line) = Some sec"
    using assms(1,2) by (auto simp: step)
  have 3: "current_key (process_line st line) = Some k"
    by (simp add: step)
  have 4: "current_desc_lines (process_line st line) = [strip d]"
    by (simp add: step)
  have "{the (current_key st), k} \<subseteq> known_keys sec (process_line st line)"
    using k by (simp add: known_keys_def 1 2 3 truthy_def AList.dom_update)
  also have "\<dots> \<subseteq> known_keys sec (foldl process_line (process_line st line) rest)"
    using assms(1) by (rule known_keys_foldl)
  also have "\<dots> \<subseteq> fst ` set (entries sec (final_capture (foldl process_line (process_line st line) rest)))"
    using assms(1) by (rule known_keys_final_capture)
  finally show ?thesis
    using 1 2 3 4 by simp
qed

theorem indented_key_line_opens_entry_witness:
  "entries Raises (process_line
       \<lparr>summary = ''S'', args = [], returns = [], raises = [],
        current_section = Some Raises, current_key = Some ''ValueError'',
        current_desc_lines = [''bad'']\<rparr> '' pkg.MyError: oops'') = [(''ValueError'', ''bad'')]
   \<and> current_key (process_line
       \<lparr>summary = ''S'', args = [], returns = [], raises = [],
        current_section = Some Raises, current_key = Some ''ValueError'',
        current_desc_lines = [''bad'']\<rparr> '' pkg.MyError: oops'') = Some ''pkg.MyError''
   \<and> {''ValueError'', ''pkg.MyError''} \<subseteq> fst ` set (entries Raises (final_capture (foldl process_line
       \<lparr>summary = ''S'', args = [], returns = [], raises = [],
        current_section = Some Raises, current_key = Some ''ValueError'',
        current_desc_lines = [''bad'']\<rparr> ['' pkg.MyError: oops'', ''Notes:''])))"
proof -
  let ?st = "\<lparr>summary = ''S'', args = [], returns = [], raises = [],
        current_section = Some Raises, current_key = Some ''ValueError'',
        current_desc_lines = [''bad'']\<rparr>"
  have h1: "Raises = Args \<or> Raises = Raises" by simp
  have h2: "current_section ?st = Some Raises" by simp
  have h3: "truthy (current_key ?st)" by (simp add: truthy_def)
  have h4: "startswith '' pkg.MyError: oops'' '' ''" by code_simp
  have h5: "header_of '' pkg.MyError: oops'' = None" by code_simp
  have h6: "key_pattern '' pkg.MyError: oops'' = Some (''pkg.MyError'', ''oops'')" by code_simp
  have e1: "strip ''bad'' = ''bad''" by code_simp
  show ?thesis
    using indented_key_line_opens_entry [OF h1 h2 h3 h4 h5 h6, of "[''Notes:'']"]
    by (simp add: e1)
qed

text \<open>
  C1 as stated fails for a matching line that does not start with a space: the pending
  entry is committed, but the section is left and the line opens no entry. Here the
  line \<^verbatim>\<open>y: bar\<close> matches the key pattern while \<^verbatim>\<open>x\<close> is pending in Args, and
  \<^verbatim>\<open>y\<close> is not in the returned dictionary.
\<close>

theorem indented_key_line_opens_entry_counterexample:
  "key_pattern ''y: bar'' = Some (''y'', ''bar'')
   \<and> current_section (foldl process_line (initial_state ''S'') [''Args:'', ''x: foo'']) = Some Args
   \<and> current_key (foldl process_line (initial_state ''S'') [''Args:'', ''x: foo'']) = Some ''x''
   \<and> current_key (foldl process_line (initial_state ''S'') [''Args:'', ''x: foo'', ''y: bar'']) = None
   \<and> parse_docstring (Some ''S\<newline>Args:\<newline>x: foo\<newline>y: bar'') =
       Inr \<lparr>summary = ''S'', args = [(''x'', ''foo'')], returns = [], raises = []\<rparr>"
  by code_simp

text \<open>
  C2, as the code has it. A line that is not blank, does not start with a space and is
  no section header, met while an entry is pending in Args or Raises or while Returns
  has description lines, commits the current item and resets the section to
  \<^verbatim>\<open>None\<close>: whatever follows before the next header is not captured, and the result
  is the one of the commit.
\<close>

theorem dedent_ends_section:
  assumes "((current_section st = Some Args \<or> current_section st = Some Raises)
              \<and> truthy (current_key st))
           \<or> (current_section st = Some Returns \<and> current_desc_lines st \<noteq> [])"
    and "\<not> startswith line '' ''" and "strip line \<noteq> []" and "header_of line = None"
    and "\<forall>l\<in>set rest. header_of l = None"
  shows "current_section (process_line st line) = None
         \<and> current_key (process_line st line) = None
         \<and> current_desc_lines (process_line st line) = []
         \<and> final_capture (foldl process_line st (line # rest)) =
             \<lparr>summary = summary st,
              args = (if current_section st = Some Args
                      then AList.update (the (current_key st))
                             (strip (join_space (current_desc_lines st))) (args st)
                      else args st),
              returns = (if current_section st = Some Returns
                         then strip (join_space (current_desc_lines st)) else returns st),
              raises = (if current_section st = Some Raises
                        then AList.update (the (current_key st))
                               (strip (join_space (current_desc_lines st))) (raises st)
                        else raises st)\<rparr>"
proof -
  have step: "process_line st line = finalize None st"
    using assms(1-4) by (rule process_line_dedent)
  have sec: "current_section (finalize None st) = None"
    by (simp add: finalize_def Let_def)
  have "foldl process_line st (line # rest) = finalize None st"
    using no_section_stable_foldl [OF sec assms(5)] by (simp add: step)
  then have "final_capture (foldl process_line st (line # rest)) =
      \<lparr>summary = summary (finalize None st), args = args (finalize None st),
       returns = returns (finalize None st), raises = raises (finalize None st)\<rparr>"
    using sec by (simp add: final_capture_no_section)
  moreover have "args (finalize None st) = (if current_section st = Some Args
                      then AList.update (the (current_key st))
                             (strip (join_space (current_desc_lines st))) (args st)
                      else args st)"
    using assms(1) by (auto simp: finalize_def Let_def pending_desc_def)
  moreover have "raises (finalize None st) = (if current_section st = Some Raises
                      then AList.update (the (current_key st))
                             (strip (join_space (current_desc_lines st))) (raises st)
                      else raises st)"
    using assms(1) by (auto simp: finalize_def Let_def pending_desc_def)
  moreover have "returns (finalize None st) = (if current_section st = Some Returns
                         then strip (join_space (current_desc_lines st)) else returns st)"
    by (auto simp: finalize_def Let_def pending_desc_def)
  moreover have "current_key (finalize None st) = None" "current_desc_lines (finalize None st) = []"
    by (simp_all add: finalize_def Let_def)
  ultimately show ?thesis
    using sec step by simp
qed

theorem dedent_ends_section_witness:
  "final_capture (foldl process_line
      \<lparr>summary = ''S'', args = [], returns = [], raises = [],
       current_section = Some Args, current_key = Some ''x'', current_desc_lines = [''a'']\<rparr>
      [''para'', ''    y: b'']) =
   \<lparr>summary = ''S'', args = [(''x'', ''a'')], returns = [], raises = []\<rparr>
   \<and> current_section (process_line
      \<lparr>summary = ''S'', args = [], returns = [], raises = [],
       current_section = Some Args, current_key = Some ''x'', current_desc_lines = [''a'']\<rparr>
      ''para'') = None"
proof -
  let ?st = "\<lparr>summary = ''S'', args = [], returns = [], raises = [],
       current_section = Some Args, current_key = Some ''x'', current_desc_lines = [''a'']\<rparr>"
  have h1: "((current_section ?st = Some Args \<or> current_section ?st = Some Raises)
              \<and> truthy (current_key ?st))
           \<or> (current_section ?st = Some Returns \<and> current_desc_lines ?st \<noteq> [])"
    by (simp add: truthy_def)
  have h2: "\<not> startswith ''para'' '' ''" by code_simp
  have h3: "strip ''para'' \<noteq> []" by code_simp
  have h4: "header_of ''para'' = None" by code_simp
  have "list_all (\<lambda>l. header_of l = None) [''    y: b'']" by code_simp
  then have h5: "\<forall>l\<in>set [''    y: b'']. header_of l = None"
    by (simp only: list_all_iff)
  have e1: "strip ''a'' = ''a''" by code_simp
  show ?thesis
    using dedent_ends_section [OF h1 h2 h3 h4 h5] by (simp add: e1)
qed

text \<open>
  C2 as stated fails: after the unindented line \<^verbatim>\<open>para\<close> the section is
  \<^verbatim>\<open>None\<close>, and the later key-line \<^verbatim>\<open>y: b\<close>, which arrives before any header,
  is not captured into \<^verbatim>\<open>args\<close>.
\<close>

theorem dedent_ends_section_counterexample:
  "current_section (foldl process_line (initial_state ''S'') [''Args:'', ''    x: a'']) = Some Args
   \<and> header_of ''para'' = None
   \<and> current_section (foldl process_line (initial_state ''S'') [''Args:'', ''    x: a'', ''para'']) = None
   \<and> key_pattern ''    y: b'' = Some (''y'', ''b'')
   \<and> parse_docstring (Some ''S\<newline>Args:\<newline>    x: a\<newline>para\<newline>    y: b'') =
       Inr \<lparr>summary = ''S'', args = [(''x'', ''a'')], returns = [], raises = []\<rparr>"
  by code_simp

text \<open>
  C3. Returns description lines accumulated when the input ends are to be written to
  \<^verbatim>\<open>returns\<close>, over an earlier value; the code does not do so. With two Returns
  sections, the second being the last section, the scanner ends with Returns as the
  current section and the line \<^verbatim>\<open>second\<close> accumulated, and \<^verbatim>\<open>returns\<close> is still
  \<^verbatim>\<open>first\<close>: the final capture is skipped because \<^verbatim>\<open>returns\<close> is not empty.
  With one more header line after the same text, the flush at the header overwrites
  \<^verbatim>\<open>returns\<close> with \<^verbatim>\<open>second\<close>.
\<close>

theorem returns_last_section_dropped:
  "current_section (foldl process_line (initial_state ''S'')
       [''Returns:'', ''    first'', ''Returns:'', ''    second'']) = Some Returns
   \<and> current_desc_lines (foldl process_line (initial_state ''S'')
       [''Returns:'', ''    first'', ''Returns:'', ''    second'']) = [''second'']
   \<and> parse_docstring
        (Some ''S\<newline>Returns:\<newline>    first\<newline>Returns:\<newline>    second'') =
       Inr \<lparr>summary = ''S'', args = [], returns = ''first'', raises = []\<rparr>
   \<and> parse_docstring
        (Some ''S\<newline>Returns:\<newline>    first\<newline>Returns:\<newline>    second\<newline>Notes:'') =
       Inr \<lparr>summary = ''S'', args = [], returns = ''second'', raises = []\<rparr>"
  by code_simp

text \<open>
  C4. A line is the header of an Args or a Returns section exactly when its stripped,
  lowercased form is one of the listed strings, and the header of a Raises or an Other
  section exactly when that form starts with one of the listed prefixes. Two lines that
  differ in case only are classified alike. A header line puts the scanner into its
  section, with no pending entry. A header of Args or Returns followed by
  further text is no header: the line goes through the de-indentation test and the
  content block like any other line.
\<close>

theorem header_recognition:
  "(header_of line = Some Args \<longleftrightarrow>
      lower (strip line) \<in> set [''args:'', ''arguments:'', ''parameters:''])
   \<and> (header_of line = Some Returns \<longleftrightarrow>
      lower (strip line) \<in> set [''returns:'', ''yields:''])
   \<and> (header_of line = Some Raises \<longleftrightarrow>
      (\<exists>p\<in>set [''raises '', ''raises:'', ''errors:'', ''exceptions:''].
         startswith (lower (strip line)) p))
   \<and> (header_of line = Some Other \<longleftrightarrow>
      (\<exists>p\<in>set [''attributes:'', ''see also:'', ''example:'', ''examples:'', ''notes:''].
         startswith (lower (strip line)) p))
   \<and> (header_of line = Some s \<longrightarrow>
      current_section (process_line st line) = Some s
      \<and> current_key (process_line st line) = None
      \<and> current_desc_lines (process_line st line) = [])
   \<and> (lower line' = lower line \<longrightarrow> header_of line' = header_of line)
   \<and> (h \<in> set [''args:'', ''arguments:'', ''parameters:'', ''returns:'', ''yields:'']
        \<and> t \<noteq> [] \<and> lower (strip line) = h @ t \<longrightarrow>
      header_of line = None
      \<and> process_line st line =
          process_content line
            (if (((current_section st = Some Args \<or> current_section st = Some Raises)
                   \<and> truthy (current_key st))
                 \<or> (current_section st = Some Returns \<and> current_desc_lines st \<noteq> []))
                \<and> \<not> startswith line '' ''
             then finalize None st else st))"
proof -
  have a: "header_of line = Some Args \<longleftrightarrow> lower (strip line) \<in> set args_headers"
    by (simp add: header_of_def detect_Args)
  have b: "header_of line = Some Returns \<longleftrightarrow> lower (strip line) \<in> set returns_headers"
    by (simp add: header_of_def detect_Returns)
  have c: "header_of line = Some Raises \<longleftrightarrow>
      (\<exists>p\<in>set raises_prefixes. startswith (lower (strip line)) p)"
    by (simp add: header_of_def detect_Raises startswith_any_iff)
  have d: "header_of line = Some Other \<longleftrightarrow>
      (\<exists>p\<in>set other_prefixes. startswith (lower (strip line)) p)"
    by (simp add: header_of_def detect_Other startswith_any_iff)
  have g: "current_section (process_line st line) = Some s
      \<and> current_key (process_line st line) = None
      \<and> current_desc_lines (process_line st line) = []" if "header_of line = Some s"
    using that by (simp add: process_line_header finalize_def Let_def)
  have e: "header_of line' = header_of line" if "lower line' = lower line"
  proof -
    have "lower (strip line') = lower (strip line)"
      using that by (simp add: strip_lower [symmetric])
    then show ?thesis by (simp add: header_of_def)
  qed
  have f: "header_of line = None \<and> process_line st line =
          process_content line
            (if (((current_section st = Some Args \<or> current_section st = Some Raises)
                   \<and> truthy (current_key st))
                 \<or> (current_section st = Some Returns \<and> current_desc_lines st \<noteq> []))
                \<and> \<not> startswith line '' ''
             then finalize None st else st)"
    if "h \<in> set (args_headers @ returns_headers)" "t \<noteq> []" "lower (strip line) = h @ t"
  proof -
    have n: "header_of line = None"
      using detect_near_miss [OF that(1,2)] that(3) by (simp add: header_of_def)
    have "lower (strip line) \<noteq> []" using that(2,3) by simp
    then have "strip line \<noteq> []" by simp
    with n show ?thesis by (simp add: process_line_content)
  qed
  have l5: "set [''args:'', ''arguments:'', ''parameters:'', ''returns:'', ''yields:'']
            = set (args_headers @ returns_headers)"
    by (simp only: args_headers_def returns_headers_def append.simps)
  show ?thesis
    unfolding l5
    unfolding args_headers_def [symmetric] returns_headers_def [symmetric]
      raises_prefixes_def [symmetric] other_prefixes_def [symmetric]
    using a b c d e f g by blast
qed

theorem header_recognition_witness:
  "header_of ''  ARGS:  '' = Some Args
   \<and> header_of ''Yields:'' = Some Returns
   \<and> header_of ''Raises ValueError when empty'' = Some Raises
   \<and> header_of ''    See Also: other'' = Some Other
   \<and> header_of ''    aRgUmEnTs:'' = header_of ''    arguments:''
   \<and> header_of ''    Args: extra'' = None
   \<and> process_line
       \<lparr>summary = ''S'', args = [], returns = [], raises = [],
        current_section = Some Args, current_key = None, current_desc_lines = []\<rparr>
       ''    Args: extra'' =
       \<lparr>summary = ''S'', args = [], returns = [], raises = [],
        current_section = Some Args, current_key = Some ''Args'',
        current_desc_lines = [''extra'']\<rparr>"
proof -
  let ?st = "\<lparr>summary = ''S'', args = [], returns = [], raises = [],
        current_section = Some Args, current_key = None, current_desc_lines = []\<rparr>"
  have 1: "header_of ''  ARGS:  '' = Some Args"
  proof -
    have "lower (strip ''  ARGS:  '') \<in> set [''args:'', ''arguments:'', ''parameters:'']"
      by code_simp
    with header_recognition [where line = "''  ARGS:  ''"] show ?thesis by blast
  qed
  have 2: "header_of ''Yields:'' = Some Returns"
  proof -
    have "lower (strip ''Yields:'') \<in> set [''returns:'', ''yields:'']"
      by code_simp
    with header_recognition [where line = "''Yields:''"] show ?thesis by blast
  qed
  have 3: "header_of ''Raises ValueError when empty'' = Some Raises"
  proof -
    have "list_ex (startswith (lower (strip ''Raises ValueError when empty'')))
            [''raises '', ''raises:'', ''errors:'', ''exceptions:'']"
      by code_simp
    then have "\<exists>p\<in>set [''raises '', ''raises:'', ''errors:'', ''exceptions:''].
         startswith (lower (strip ''Raises ValueError when empty'')) p"
      by (simp only: list_ex_iff)
    with header_recognition [where line = "''Raises ValueError when empty''"] show ?thesis by blast
  qed
  have 4: "header_of ''    See Also: other'' = Some Other"
  proof -
    have "list_ex (startswith (lower (strip ''    See Also: other'')))
            [''attributes:'', ''see also:'', ''example:'', ''examples:'', ''notes:'']"
      by code_simp
    then have "\<exists>p\<in>set [''attributes:'', ''see also:'', ''example:'', ''examples:'', ''notes:''].
         startswith (lower (strip ''    See Also: other'')) p"
      by (simp only: list_ex_iff)
    with header_recognition [where line = "''    See Also: other''"] show ?thesis by blast
  qed
  have 5: "header_of ''    aRgUmEnTs:'' = header_of ''    arguments:''"
  proof -
    have "lower ''    aRgUmEnTs:'' = lower ''    arguments:''"
      by code_simp
    with header_recognition [where line = "''    arguments:''" and line' = "''    aRgUmEnTs:''"]
    show ?thesis by blast
  qed
  have h6: "''args:'' \<in> set [''args:'', ''arguments:'', ''parameters:'', ''returns:'', ''yields:'']
        \<and> '' extra'' \<noteq> [] \<and> lower (strip ''    Args: extra'') = ''args:'' @ '' extra''"
    by code_simp
  have n: "\<not> startswith ''    Args: extra'' '' '' \<longleftrightarrow> False" by code_simp
  have pc: "process_content ''    Args: extra'' ?st =
       \<lparr>summary = ''S'', args = [], returns = [], raises = [],
        current_section = Some Args, current_key = Some ''Args'',
        current_desc_lines = [''extra'']\<rparr>"
    by code_simp
  have 6: "header_of ''    Args: extra'' = None \<and> process_line ?st ''    Args: extra'' =
       \<lparr>summary = ''S'', args = [], returns = [], raises = [],
        current_section = Some Args, current_key = Some ''Args'',
        current_desc_lines = [''extra'']\<rparr>"
    using header_recognition [where line = "''    Args: extra''" and h = "''args:''"
        and t = "'' extra''" and st = ?st] h6
    unfolding n by (simp add: pc)
  from 1 2 3 4 5 6 show ?thesis by simp
qed

text \<open>
  C5. Whenever the docstring has a character that is not white space, the stripped text
  has a line of index 0, which is the text up to its first line boundary, and the
  summary of the result is that line stripped, whatever the line holds.
\<close>

theorem summary_is_first_line:
  assumes "\<exists>c\<in>set text. \<not> is_space c"
  shows "\<exists>r. parse_docstring (Some text) = Inr r
           \<and> splitlines (strip text) \<noteq> []
           \<and> splitlines (strip text) ! 0 = takeWhile (\<lambda>c. \<not> is_linebreak c) (strip text)
           \<and> summary r = strip (splitlines (strip text) ! 0)"
proof -
  from assms have "strip text \<noteq> []"
    by (simp add: strip_Nil_iff)
  then obtain rest where
    sl: "splitlines (strip text) = takeWhile (\<lambda>c. \<not> is_linebreak c) (strip text) # rest"
    using splitlines_first by blast
  show ?thesis
    using parse_docstring_lines [OF sl] sl by (simp add: initial_state_def)
qed

theorem summary_is_first_line_witness:
  "(\<exists>c\<in>set ''  Args:  \<newline>\<newline>    x: y\<newline>''. \<not> is_space c)
   \<and> parse_docstring (Some ''  Args:  \<newline>\<newline>    x: y\<newline>'') =
       Inr \<lparr>summary = ''Args:'', args = [], returns = [], raises = []\<rparr>
   \<and> splitlines (strip ''  Args:  \<newline>\<newline>    x: y\<newline>'') ! 0 = ''Args:  ''"
proof -
  have h: "\<exists>c\<in>set ''  Args:  \<newline>\<newline>    x: y\<newline>''. \<not> is_space c"
    by code_simp
  have p: "parse_docstring (Some ''  Args:  \<newline>\<newline>    x: y\<newline>'') =
       Inr \<lparr>summary = ''Args:'', args = [], returns = [], raises = []\<rparr>"
    by code_simp
  have s: "splitlines (strip ''  Args:  \<newline>\<newline>    x: y\<newline>'') ! 0 = ''Args:  ''"
    by code_simp
  from summary_is_first_line [OF h] h p s show ?thesis by simp
qed

text \<open>
  C6. The parser never raises: an absent docstring, the empty docstring and a docstring
  of white space only give the empty record, and every docstring gives a record.
\<close>

theorem parse_docstring_total:
  "parse_docstring None = Inr \<lparr>summary = [], args = [], returns = [], raises = []\<rparr>
   \<and> parse_docstring (Some []) = Inr \<lparr>summary = [], args = [], returns = [], raises = []\<rparr>
   \<and> ((\<forall>c\<in>set text. is_space c) \<longrightarrow>
        parse_docstring (Some text) = Inr \<lparr>summary = [], args = [], returns = [], raises = []\<rparr>)
   \<and> (\<exists>r. parse_docstring docstring = Inr r)"
proof -
  have a: "parse_docstring None = Inr \<lparr>summary = [], args = [], returns = [], raises = []\<rparr>"
    by (simp add: parse_docstring_def empty_doc_def)
  have b: "parse_docstring (Some t) = Inr \<lparr>summary = [], args = [], returns = [], raises = []\<rparr>"
    if "\<forall>c\<in>set t. is_space c" for t
  proof -
    from that have "strip t = []" by (simp add: strip_Nil_iff)
    then show ?thesis
      by (simp add: parse_docstring_def empty_doc_def splitlines_def)
  qed
  have c: "\<exists>r. parse_docstring docstring = Inr r"
    by (cases docstring)
       (auto simp: parse_docstring_def parse_lines_def Let_def split: list.splits)
  from a b [of "[]"] b [of "text"] c show ?thesis by simp
qed

theorem parse_docstring_total_witness:
  "list_all is_space '' \<newline>  ''
   \<and> parse_docstring (Some '' \<newline>  '') =
       Inr \<lparr>summary = [], args = [], returns = [], raises = []\<rparr>
   \<and> (\<exists>r. parse_docstring (Some ''S\<newline>Args:\<newline>    x: y'') = Inr r)"
proof -
  have h: "list_all is_space '' \<newline>  ''"
    by code_simp
  then have "\<forall>c\<in>set '' \<newline>  ''. is_space c"
    by (simp only: list_all_iff)
  with parse_docstring_total [of "'' \<newline>  ''" "Some ''S\<newline>Args:\<newline>    x: y''"] h
  show ?thesis by simp
qed

text \<open>
  C7, as the code has it. Inside Args or Raises with a pending key, a line that starts
  with a space, matches the key pattern and is no section header is a new key-line, not
  a continuation: the pending entry is committed with the description it had, and the
  new pending entry has group 1 as its key.
\<close>

theorem key_line_wins:
  assumes "current_section st = Some Args \<or> current_section st = Some Raises"
    and "truthy (current_key st)"
    and "startswith line '' ''"
    and "key_pattern line = Some (k, d)"
    and "header_of line = None"
  shows "process_line st line =
     (if current_section st = Some Args
      then st\<lparr>args := AList.update (the (current_key st))
                        (strip (join_space (current_desc_lines st))) (args st),
              current_key := Some k, current_desc_lines := [strip d]\<rparr>
      else st\<lparr>raises := AList.update (the (current_key st))
                          (strip (join_space (current_desc_lines st))) (raises st),
              current_key := Some k, current_desc_lines := [strip d]\<rparr>)"
  using process_line_key_line [OF assms] by (simp add: pending_desc_def)

theorem key_line_wins_witness:
  "process_line
     \<lparr>summary = ''S'', args = [], returns = [], raises = [],
      current_section = Some Args, current_key = Some ''x'', current_desc_lines = [''a'', ''b'']\<rparr>
     ''    y (int): c'' =
   \<lparr>summary = ''S'', args = [(''x'', ''a b'')], returns = [], raises = [],
    current_section = Some Args, current_key = Some ''y'', current_desc_lines = [''c'']\<rparr>"
proof -
  let ?st = "\<lparr>summary = ''S'', args = [], returns = [], raises = [],
      current_section = Some Args, current_key = Some ''x'', current_desc_lines = [''a'', ''b'']\<rparr>"
  have h1: "current_section ?st = Some Args \<or> current_section ?st = Some Raises" by simp
  have h2: "truthy (current_key ?st)" by (simp add: truthy_def)
  have h3: "startswith ''    y (int): c'' '' ''" by code_simp
  have h4: "key_pattern ''    y (int): c'' = Some (''y'', ''c'')" by code_simp
  have h5: "header_of ''    y (int): c'' = None" by code_simp
  have e1: "strip ''a b'' = ''a b''" by code_simp
  have e2: "strip ''c'' = ''c''" by code_simp
  show ?thesis
    using key_line_wins [OF h1 h2 h3 h4 h5] by (simp add: e1 e2)
qed

text \<open>
  C7 as stated fails in two ways. An indented line that matches the key pattern and is
  also a section header is taken as the header: \<^verbatim>\<open>notes: b\<close> opens an Other
  section and no entry \<^verbatim>\<open>notes\<close>. A matching line indented by a tab does not start
  with a space: with \<^verbatim>\<open>x\<close> pending it commits \<^verbatim>\<open>x\<close>, leaves the section and
  opens no entry \<^verbatim>\<open>y\<close>.
\<close>

theorem key_line_wins_counterexample:
  "key_pattern ''    notes: b'' = Some (''notes'', ''b'')
   \<and> startswith ''    notes: b'' '' ''
   \<and> parse_docstring (Some ''S\<newline>Args:\<newline>    x: a\<newline>    notes: b'') =
       Inr \<lparr>summary = ''S'', args = [(''x'', ''a'')], returns = [], raises = []\<rparr>
   \<and> key_pattern (CHR 0x09 # ''y: b'') = Some (''y'', ''b'')
   \<and> is_space (CHR 0x09)
   \<and> header_of (CHR 0x09 # ''y: b'') = None
   \<and> process_line
       \<lparr>summary = ''S'', args = [], returns = [], raises = [],
        current_section = Some Args, current_key = Some ''x'', current_desc_lines = [''a'']\<rparr>
       (CHR 0x09 # ''y: b'') =
     \<lparr>summary = ''S'', args = [(''x'', ''a'')], returns = [], raises = [],
      current_section = None, current_key = None, current_desc_lines = []\<rparr>
   \<and> parse_docstring (Some (''S\<newline>Args:\<newline>    x: a\<newline>'' @ CHR 0x09 # ''y: b'')) =
       Inr \<lparr>summary = ''S'', args = [(''x'', ''a'')], returns = [], raises = []\<rparr>"
  by code_simp

text \<open>
  C8. A blank line leaves the state of the scanner as it is. A docstring whose lines
  are those of another with one blank line more, anywhere after the first line, has
  the same result; so has a docstring with a line of white space put in after any line
  feed.
\<close>

theorem blank_lines_inert:
  "(strip b = [] \<longrightarrow> process_line st b = st)
   \<and> (strip b = [] \<and> splitlines (strip doc) = l0 # xs @ ys
        \<and> splitlines (strip doc') = l0 # xs @ b # ys \<longrightarrow>
      parse_docstring (Some doc') = parse_docstring (Some doc))
   \<and> ((\<forall>c\<in>set w. is_space c) \<longrightarrow>
      parse_docstring (Some (p @ CHR 0x0A # w @ CHR 0x0A # q)) =
      parse_docstring (Some (p @ CHR 0x0A # q)))"
proof (intro conjI impI)
  assume "strip b = []"
  then show "process_line st b = st" by (rule process_line_blank)
next
  assume a: "strip b = [] \<and> splitlines (strip doc) = l0 # xs @ ys
        \<and> splitlines (strip doc') = l0 # xs @ b # ys"
  then have 1: "splitlines (strip doc) = l0 # xs @ ys"
    and 2: "splitlines (strip doc') = l0 # xs @ b # ys" by simp_all
  show "parse_docstring (Some doc') = parse_docstring (Some doc)"
    unfolding parse_docstring_lines [OF 1] parse_docstring_lines [OF 2]
    using a by (simp add: process_line_blank)
next
  assume "\<forall>c\<in>set w. is_space c"
  then show "parse_docstring (Some (p @ CHR 0x0A # w @ CHR 0x0A # q)) =
      parse_docstring (Some (p @ CHR 0x0A # q))"
    by (rule parse_docstring_insert_blank_text)
qed

theorem blank_lines_inert_witness:
  "parse_docstring (Some
      ''S\<newline>Args:\<newline>    code: The string\<newline>  \<newline>        code to execute.'') =
     Inr \<lparr>summary = ''S'', args = [(''code'', ''The string code to execute.'')],
          returns = [], raises = []\<rparr>
   \<and> parse_docstring (Some
      ''S\<newline>\<newline>Returns:\<newline>\<newline>    a\<newline>    b'') =
     Inr \<lparr>summary = ''S'', args = [], returns = ''a b'', raises = []\<rparr>
   \<and> process_line
       \<lparr>summary = ''S'', args = [], returns = [], raises = [],
        current_section = Some Args, current_key = Some ''x'', current_desc_lines = [''a'']\<rparr>
       ''   '' =
       \<lparr>summary = ''S'', args = [], returns = [], raises = [],
        current_section = Some Args, current_key = Some ''x'', current_desc_lines = [''a'']\<rparr>"
proof -
  have w: "\<forall>c\<in>set ''  ''. is_space c"
    by (rule list_all_ball) code_simp
  have base: "parse_docstring (Some
      (''S\<newline>Args:\<newline>    code: The string'' @ CHR 0x0A # ''        code to execute.'')) =
     Inr \<lparr>summary = ''S'', args = [(''code'', ''The string code to execute.'')],
          returns = [], raises = []\<rparr>"
    by code_simp
  have 1: "parse_docstring (Some
      (''S\<newline>Args:\<newline>    code: The string'' @ CHR 0x0A # ''  '' @ CHR 0x0A
         # ''        code to execute.'')) =
     Inr \<lparr>summary = ''S'', args = [(''code'', ''The string code to execute.'')],
          returns = [], raises = []\<rparr>"
    using blank_lines_inert [THEN conjunct2, THEN conjunct2, THEN mp, OF w,
        of "''S\<newline>Args:\<newline>    code: The string''" "''        code to execute.''"]
    unfolding base .
  have b': "strip [] = [] \<and> splitlines (strip ''S\<newline>Returns:\<newline>    a\<newline>    b'')
             = ''S'' # [] @ [''Returns:'', ''    a'', ''    b'']
        \<and> splitlines (strip ''S\<newline>\<newline>Returns:\<newline>    a\<newline>    b'')
             = ''S'' # [] @ [] # [''Returns:'', ''    a'', ''    b'']"
    by code_simp
  have b'': "strip [] = [] \<and> splitlines (strip ''S\<newline>\<newline>Returns:\<newline>    a\<newline>    b'')
             = ''S'' # ['''', ''Returns:''] @ [''    a'', ''    b'']
        \<and> splitlines (strip ''S\<newline>\<newline>Returns:\<newline>\<newline>    a\<newline>    b'')
             = ''S'' # ['''', ''Returns:''] @ [] # [''    a'', ''    b'']"
    by code_simp
  have base2: "parse_docstring (Some ''S\<newline>Returns:\<newline>    a\<newline>    b'') =
     Inr \<lparr>summary = ''S'', args = [], returns = ''a b'', raises = []\<rparr>"
    by code_simp
  have 2: "parse_docstring (Some ''S\<newline>\<newline>Returns:\<newline>\<newline>    a\<newline>    b'') =
     Inr \<lparr>summary = ''S'', args = [], returns = ''a b'', raises = []\<rparr>"
    using blank_lines_inert [THEN conjunct2, THEN conjunct1, THEN mp, OF b']
      blank_lines_inert [THEN conjunct2, THEN conjunct1, THEN mp, OF b'']
    unfolding base2 by simp
  let ?st = "\<lparr>summary = ''S'', args = [], returns = [], raises = [],
        current_section = Some Args, current_key = Some ''x'', current_desc_lines = [''a'']\<rparr>"
  have s: "strip ''   '' = []" by code_simp
  have 3: "process_line ?st ''   '' = ?st"
    using blank_lines_inert [THEN conjunct1, THEN mp, OF s] .
  from 1 2 3 show ?thesis by simp
qed

text \<open>
  C9, as the code has it. Let two lines open an entry for the same key in Args (or in
  Raises): each is no section header, matches the key pattern and starts with a space
  unless no key is pending. Let the second be followed by its continuation lines, and
  let no later line open an entry for that key in that section. Then the returned
  dictionary has the key exactly once, with the description of the second key-line:
  group 2 and the continuation lines, stripped and joined by single spaces. The
  description of the first key-line has no part in it.
\<close>

theorem duplicate_key_last_wins:
  assumes "splitlines (strip doc) = l0 # pre @ kl1 # mid @ kl2 # cs @ post"
    and "sec = Args \<or> sec = Raises"
    and "opens_key sec k (foldl process_line (initial_state l0) pre) kl1"
    and "opens_key sec k (foldl process_line (initial_state l0) (pre @ kl1 # mid)) kl2"
    and "key_pattern kl2 = Some (k, d2)"
    and "\<forall>l\<in>set cs. strip l = [] \<or> is_continuation l"
    and "post = [] \<or> (strip (hd post) \<noteq> [] \<and> \<not> is_continuation (hd post))"
    and "no_later_key sec k
           (foldl process_line (initial_state l0) (pre @ kl1 # mid @ kl2 # cs)) post"
  shows "\<exists>r. parse_docstring (Some doc) = Inr r
           \<and> filter (\<lambda>e. fst e = k) (entries sec r) =
               [(k, strip (join_space (strip d2 # map strip (filter (\<lambda>l. strip l \<noteq> []) cs))))]"
proof -
  let ?st = "foldl process_line (initial_state l0) (pre @ kl1 # mid)"
  let ?r = "final_capture (foldl process_line ?st (kl2 # cs @ post))"
  have n: "no_later_key sec k (foldl process_line ?st (kl2 # cs)) post"
    using assms(8) by simp
  have v: "map_of (entries sec ?r) k =
         Some (strip (join_space (strip d2 # map strip (filter (\<lambda>l. strip l \<noteq> []) cs))))"
    using assms(2,4,5,6,7) n by (rule entry_after_key_line)
  have "keys_distinct ?r"
    by (intro keys_distinct_final_capture keys_distinct_foldl keys_distinct_initial)
  then have "distinct (map fst (entries sec ?r))"
    by (rule keys_distinct_entries)
  then have "filter (\<lambda>e. fst e = k) (entries sec ?r) =
      [(k, strip (join_space (strip d2 # map strip (filter (\<lambda>l. strip l \<noteq> []) cs))))]"
    using v by (rule filter_key_unique)
  moreover have "parse_docstring (Some doc) = Inr ?r"
    using parse_docstring_lines [OF assms(1)] by simp
  ultimately show ?thesis by simp
qed

theorem duplicate_key_last_wins_witness:
  "\<exists>r. parse_docstring (Some
      ''S\<newline>Args:\<newline>    x: first\<newline>    y: other\<newline>    x (int): second\<newline>\<newline>        more\<newline>Returns:\<newline>    x: no'') = Inr r
     \<and> filter (\<lambda>e. fst e = ''x'') (entries Args r) = [(''x'', ''second more'')]"
proof -
  let ?doc = "''S\<newline>Args:\<newline>    x: first\<newline>    y: other\<newline>    x (int): second\<newline>\<newline>        more\<newline>Returns:\<newline>    x: no''"
  have h1: "splitlines (strip ?doc) =
      ''S'' # [''Args:''] @ ''    x: first'' # [''    y: other''] @ ''    x (int): second''
        # ['''', ''        more''] @ [''Returns:'', ''    x: no'']"
    by code_simp
  have h2: "Args = Args \<or> Args = Raises" by simp
  have h3: "opens_key Args ''x'' (foldl process_line (initial_state ''S'') [''Args:''])
              ''    x: first''"
    by code_simp
  have h4: "opens_key Args ''x''
      (foldl process_line (initial_state ''S'') ([''Args:''] @ ''    x: first'' # [''    y: other'']))
      ''    x (int): second''"
    by code_simp
  have h5: "key_pattern ''    x (int): second'' = Some (''x'', ''second'')"
    by code_simp
  have h6: "\<forall>l\<in>set ['''', ''        more'']. strip l = [] \<or> is_continuation l"
    by (rule list_all_ball) code_simp
  have h7: "[''Returns:'', ''    x: no''] = []
      \<or> (strip (hd [''Returns:'', ''    x: no'']) \<noteq> []
          \<and> \<not> is_continuation (hd [''Returns:'', ''    x: no'']))"
    by code_simp
  have h8: "no_later_key Args ''x''
      (foldl process_line (initial_state ''S'')
         ([''Args:''] @ ''    x: first'' # [''    y: other''] @ ''    x (int): second''
            # ['''', ''        more'']))
      [''Returns:'', ''    x: no'']"
    by code_simp
  have e: "strip (join_space (strip ''second'' #
              map strip (filter (\<lambda>l. strip l \<noteq> []) ['''', ''        more''])))
           = ''second more''"
    by code_simp
  show ?thesis
    using duplicate_key_last_wins [OF h1 h2 h3 h4 h5 h6 h7 h8] unfolding e .
qed

text \<open>
  C9 as stated fails when the second line for the key does not start with a space
  while the first entry is pending: the line commits the first description, leaves the
  section and opens no entry, so \<^verbatim>\<open>x\<close> keeps the earlier description.
\<close>

theorem duplicate_key_last_wins_counterexample:
  "current_section (foldl process_line (initial_state ''S'') [''Args:'']) = Some Args
   \<and> key_pattern ''    x: first'' = Some (''x'', ''first'')
   \<and> current_section (foldl process_line (initial_state ''S'') [''Args:'', ''    x: first''])
       = Some Args
   \<and> header_of ''x: second'' = None
   \<and> key_pattern ''x: second'' = Some (''x'', ''second'')
   \<and> parse_docstring (Some ''S\<newline>Args:\<newline>    x: first\<newline>x: second'') =
       Inr \<lparr>summary = ''S'', args = [(''x'', ''first'')], returns = [], raises = []\<rparr>"
  by code_simp

text \<open>
  C10, as the code has it. Let a line open an entry in Args or in Raises (it is no
  section header, and it starts with a space unless no key is pending), with nothing
  but white space after its colon. Then its key is in the returned dictionary,
  whatever lines follow; and the key is bound to the empty string when only blank lines
  come before the next line that is not a continuation line and no later line opens an
  entry for the same key in that section. A line made of white space, a run of key
  characters, a colon and white space is matched by the key pattern with that run as
  group 1 and an empty group 2.
\<close>

theorem bare_key_line_entry:
  assumes "splitlines (strip doc) = l0 # pre @ kl # rest"
    and "sec = Args \<or> sec = Raises"
    and "opens_key sec k (foldl process_line (initial_state l0) pre) kl"
    and "key_pattern kl = Some (k, d)" and "strip d = []"
  shows "(\<exists>r. parse_docstring (Some doc) = Inr r
            \<and> k \<in> fst ` set (entries sec r)
            \<and> (rest = bs @ post \<and> (\<forall>l\<in>set bs. strip l = [])
                 \<and> (post = [] \<or> (strip (hd post) \<noteq> [] \<and> \<not> is_continuation (hd post)))
                 \<and> no_later_key sec k (foldl process_line (initial_state l0) (pre @ kl # bs)) post
                \<longrightarrow> map_of (entries sec r) k = Some []))
         \<and> (name \<noteq> [] \<and> list_all is_key_char name \<and> list_all is_space ind
              \<and> list_all is_space tr \<longrightarrow>
            key_pattern (ind @ name @ CHR '':'' # tr) = Some (name, []))"
proof -
  let ?st = "foldl process_line (initial_state l0) pre"
  let ?r = "final_capture (foldl process_line ?st (kl # rest))"
  have p: "parse_docstring (Some doc) = Inr ?r"
    using parse_docstring_lines [OF assms(1)] by simp
  have m: "k \<in> fst ` set (entries sec ?r)"
    using assms(2,3,4) by (rule opens_key_known)
  have v: "map_of (entries sec ?r) k = Some []"
    if a: "rest = bs @ post \<and> (\<forall>l\<in>set bs. strip l = [])
         \<and> (post = [] \<or> (strip (hd post) \<noteq> [] \<and> \<not> is_continuation (hd post)))
         \<and> no_later_key sec k (foldl process_line (initial_state l0) (pre @ kl # bs)) post"
  proof -
    have bs: "\<forall>l\<in>set bs. strip l = [] \<or> is_continuation l"
      using a by simp
    have po: "post = [] \<or> (strip (hd post) \<noteq> [] \<and> \<not> is_continuation (hd post))"
      using a by simp
    have n: "no_later_key sec k (foldl process_line ?st (kl # bs)) post"
      using a by simp
    have f: "filter (\<lambda>l. strip l \<noteq> []) bs = []"
      using a by (simp add: filter_empty_conv)
    have "map_of (entries sec (final_capture (foldl process_line ?st (kl # bs @ post)))) k =
         Some (strip (join_space (strip d # map strip (filter (\<lambda>l. strip l \<noteq> []) bs))))"
      using assms(2,3,4) bs po n by (rule entry_after_key_line)
    then show ?thesis
      using a by (simp add: f assms(5))
  qed
  have "\<exists>r. parse_docstring (Some doc) = Inr r
            \<and> k \<in> fst ` set (entries sec r)
            \<and> (rest = bs @ post \<and> (\<forall>l\<in>set bs. strip l = [])
                 \<and> (post = [] \<or> (strip (hd post) \<noteq> [] \<and> \<not> is_continuation (hd post)))
                 \<and> no_later_key sec k (foldl process_line (initial_state l0) (pre @ kl # bs)) post
                \<longrightarrow> map_of (entries sec r) k = Some [])"
    using p m v by blast
  then show ?thesis
    by (simp add: key_pattern_bare list_all_iff)
qed

theorem bare_key_line_entry_witness:
  "(\<exists>r. parse_docstring (Some
       ''S\<newline>Args:\<newline>    x:\<newline>Raises:\<newline>    ValueError:  '') = Inr r
      \<and> ''x'' \<in> fst ` set (entries Args r) \<and> map_of (entries Args r) ''x'' = Some [])
   \<and> (\<exists>r. parse_docstring (Some
       ''S\<newline>Args:\<newline>    x:\<newline>Raises:\<newline>    ValueError:  '') = Inr r
      \<and> map_of (entries Raises r) ''ValueError'' = Some [])
   \<and> (\<exists>r. parse_docstring (Some ''S\<newline>Args:\<newline>    x:\<newline>        more'') = Inr r
      \<and> ''x'' \<in> fst ` set (entries Args r))
   \<and> key_pattern ''    x:'' = Some (''x'', [])"
proof -
  let ?doc = "''S\<newline>Args:\<newline>    x:\<newline>Raises:\<newline>    ValueError:  ''"
  have a1: "splitlines (strip ?doc) =
      ''S'' # [''Args:''] @ ''    x:'' # [''Raises:'', ''    ValueError:'']"
    by code_simp
  have a2: "Args = Args \<or> Args = Raises" by simp
  have a3: "opens_key Args ''x'' (foldl process_line (initial_state ''S'') [''Args:'']) ''    x:''"
    by code_simp
  have a4: "key_pattern ''    x:'' = Some (''x'', [])" by code_simp
  have a5: "strip [] = []" by simp
  note A = bare_key_line_entry [OF a1 a2 a3 a4 a5, where bs = "[]"
      and post = "[''Raises:'', ''    ValueError:'']" and name = "''x''" and ind = "''    ''"
      and tr = "[]"]
  have hA: "[''Raises:'', ''    ValueError:''] = [] @ [''Raises:'', ''    ValueError:'']
      \<and> (\<forall>l\<in>set []. strip l = [])
      \<and> ([''Raises:'', ''    ValueError:''] = []
          \<or> (strip (hd [''Raises:'', ''    ValueError:'']) \<noteq> []
              \<and> \<not> is_continuation (hd [''Raises:'', ''    ValueError:''])))
      \<and> no_later_key Args ''x''
          (foldl process_line (initial_state ''S'') ([''Args:''] @ ''    x:'' # []))
          [''Raises:'', ''    ValueError:'']"
  proof (intro conjI)
    show "[''Raises:'', ''    ValueError:''] = [] @ [''Raises:'', ''    ValueError:'']"
      by simp
    show "\<forall>l\<in>set []. strip l = []" by simp
    show "[''Raises:'', ''    ValueError:''] = []
          \<or> (strip (hd [''Raises:'', ''    ValueError:'']) \<noteq> []
              \<and> \<not> is_continuation (hd [''Raises:'', ''    ValueError:'']))"
      by code_simp
    show "no_later_key Args ''x''
          (foldl process_line (initial_state ''S'') ([''Args:''] @ ''    x:'' # []))
          [''Raises:'', ''    ValueError:'']"
      by code_simp
  qed
  from A hA have A1: "\<exists>r. parse_docstring (Some ?doc) = Inr r
      \<and> ''x'' \<in> fst ` set (entries Args r) \<and> map_of (entries Args r) ''x'' = Some []"
    by blast
  have b1: "splitlines (strip ?doc) =
      ''S'' # [''Args:'', ''    x:'', ''Raises:''] @ ''    ValueError:'' # []"
    by code_simp
  have b2: "Raises = Args \<or> Raises = Raises" by simp
  have b3: "opens_key Raises ''ValueError''
      (foldl process_line (initial_state ''S'') [''Args:'', ''    x:'', ''Raises:''])
      ''    ValueError:''"
    by code_simp
  have b4: "key_pattern ''    ValueError:'' = Some (''ValueError'', [])" by code_simp
  note B = bare_key_line_entry [OF b1 b2 b3 b4 a5, where bs = "[]" and post = "[]"]
  have hB: "([] :: string list) = [] @ [] \<and> (\<forall>l\<in>set []. strip l = [])
      \<and> (([] :: string list) = [] \<or> (strip (hd []) \<noteq> [] \<and> \<not> is_continuation (hd [])))
      \<and> no_later_key Raises ''ValueError''
          (foldl process_line (initial_state ''S'')
             ([''Args:'', ''    x:'', ''Raises:''] @ ''    ValueError:'' # [])) []"
    by simp
  from B hB have B1: "\<exists>r. parse_docstring (Some ?doc) = Inr r
      \<and> map_of (entries Raises r) ''ValueError'' = Some []"
    by blast
  have c1: "splitlines (strip ''S\<newline>Args:\<newline>    x:\<newline>        more'') =
      ''S'' # [''Args:''] @ ''    x:'' # [''        more'']"
    by code_simp
  note C = bare_key_line_entry [OF c1 a2 a3 a4 a5]
  from C have C1: "\<exists>r. parse_docstring (Some ''S\<newline>Args:\<newline>    x:\<newline>        more'') = Inr r
      \<and> ''x'' \<in> fst ` set (entries Args r)"
    by blast
  have s: "''x'' \<noteq> [] \<and> list_all is_key_char ''x'' \<and> list_all is_space ''    ''
           \<and> list_all is_space []"
    by code_simp
  from A s have "key_pattern (''    '' @ ''x'' @ CHR '':'' # []) = Some (''x'', [])"
    by blast
  then have k: "key_pattern ''    x:'' = Some (''x'', [])"
    by simp
  from A1 B1 C1 k show ?thesis by blast
qed

text \<open>
  C10 as stated fails in two ways. The line \<^verbatim>\<open>ValueError:\<close> that does not start with
  a space while \<^verbatim>\<open>KeyError\<close> is pending leaves the section and gives no entry. The
  key-line \<^verbatim>\<open>x:\<close> followed by the key-line \<^verbatim>\<open>x: foo\<close>, which is no continuation
  line, leaves \<^verbatim>\<open>x\<close> bound to \<^verbatim>\<open>foo\<close>.
\<close>

theorem bare_key_line_entry_counterexample:
  "current_section (foldl process_line (initial_state ''S'') [''Raises:'', ''    KeyError: k''])
     = Some Raises
   \<and> header_of ''ValueError:'' = None
   \<and> key_pattern ''ValueError:'' = Some (''ValueError'', [])
   \<and> parse_docstring (Some ''S\<newline>Raises:\<newline>    KeyError: k\<newline>ValueError:'') =
       Inr \<lparr>summary = ''S'', args = [], returns = [], raises = [(''KeyError'', ''k'')]\<rparr>
   \<and> key_pattern ''    x:'' = Some (''x'', [])
   \<and> \<not> is_continuation ''    x: foo''
   \<and> parse_docstring (Some ''S\<newline>Args:\<newline>    x:\<newline>    x: foo'') =
       Inr \<lparr>summary = ''S'', args = [(''x'', ''foo'')], returns = [], raises = []\<rparr>"
  by code_simp

end
